theory Spec2Isabelle
  imports Main "HOL-Library.Monad_Syntax" "HOL-Library.AList"
begin

section \<open>Data model of \<open>useChildren.ts\<close>\<close>

text \<open>
  Host (DOM) nodes and effect arrays are mutable JavaScript objects; both are modelled
  by their identity. A virtual node is a string or a \<open>VElement\<close>. Of a \<open>VElement\<close>
  the driver reads \<open>children\<close>, \<open>key\<close>, \<open>flag\<close> and \<open>delta\<close>; an absent
  (\<open>undefined\<close>) field is \<open>None\<close>. The children are an array of virtual nodes
  or one string: lines 362 to 367 ask \<open>Array.isArray\<close> of them and take what is no
  array as it is.
\<close>

type_synonym node = nat
type_synonym array_ref = nat
type_synonym vkey = "string option"

text \<open>Modelled from the spec: the declarations of \<open>../types\<close> are not part of the
  sources at hand. The optimisation flag is one of DEFAULT, NO_CHILDREN, KEYED_CHILDREN,
  TEXT_CHILDREN; a patch is a pair of an operation (CREATE, UPDATE, REMOVE) and a
  non-negative position; an effect kind is one of CREATE, UPDATE, REMOVE, REPLACE.\<close>

datatype Flags = ELEMENT_DEFAULT | ELEMENT_NO_CHILDREN | ELEMENT_KEYED_CHILDREN | ELEMENT_TEXT_CHILDREN

datatype DeltaTypes = Delta_CREATE | Delta_UPDATE | Delta_REMOVE

datatype EffectTypes = Effect_CREATE | Effect_UPDATE | Effect_REMOVE | Effect_REPLACE

type_synonym Delta = "DeltaTypes \<times> nat"

datatype vnode = VText string | VElem velement
and velement = VElement
  (children: "vchildren option")
  (key: "string option")
  (flag: "Flags option")
  (delta: "Delta list option")
and vchildren = ChildArray "vnode list" | ChildString string

text \<open>\<open>(v as VElement).key\<close>: a string has no such property, the read gives
  \<open>undefined\<close>.\<close>

fun key_of :: "vnode \<Rightarrow> vkey" where
  "key_of (VText s) = None"
| "key_of (VElem e) = key e"

text \<open>\<open>xs[i]\<close> on a JavaScript array: \<open>undefined\<close> out of range.\<close>

definition at :: "'a list \<Rightarrow> int \<Rightarrow> 'a option" where
  "at xs i = (if 0 \<le> i \<and> i < int (length xs) then Some (xs ! nat i) else None)"

text \<open>A children value read by \<open>c.length\<close> and \<open>c[i]\<close>: an array gives its
  elements, a string its characters, each a string of length one.\<close>

fun elements :: "vchildren \<Rightarrow> vnode list" where
  "elements (ChildArray xs) = xs"
| "elements (ChildString s) = map (\<lambda>c. VText [c]) s"

text \<open>\<open>!c\<close>: every JavaScript object, the empty array too, is truthy; of the strings
  the empty one is falsy. \<open>undefined\<close> is falsy.\<close>

fun falsy :: "vchildren \<Rightarrow> bool" where
  "falsy (ChildArray xs) = False"
| "falsy (ChildString s) = (s = [])"

fun falsy_opt :: "vchildren option \<Rightarrow> bool" where
  "falsy_opt None = True"
| "falsy_opt (Some c) = falsy c"

text \<open>
  The body of each effect closure of the source, with the variables it captures. The
  host node \<open>el\<close>, captured by all of them, is kept in the effect record.
  \<^item> \<open>InsertCreatedBefore cs pos child\<close>:
    \<open>el.insertBefore(createElement(newVNodeChildren![deltaPosition], false), child)\<close>,
    where \<open>cs\<close> is \<open>newVNodeChildren\<close> read by index
  \<^item> \<open>RemoveChild node\<close>: \<open>el.removeChild(node)\<close>
  \<^item> \<open>ClearTextContent\<close>: \<open>el.textContent = ''\<close>
  \<^item> \<open>AppendCreated v\<close>: \<open>el.appendChild(createElement(newVNodeChildren[i], false))\<close>
  \<^item> \<open>InsertAfterItem node tail\<close>:
    \<open>el.insertBefore(node, el.childNodes.item(tail).nextSibling)\<close>
  \<^item> \<open>InsertBeforeItem node head\<close>: \<open>el.insertBefore(node, el.childNodes.item(head))\<close>
  \<^item> \<open>InsertCachedOrCreated cachedNode v head\<close>:
    \<open>el.insertBefore(cachedNode ?? createElement(v, false), el.childNodes.item(head))\<close>
  \<^item> \<open>SetTextContent s\<close>: \<open>el.textContent = newString!\<close>
  \<^item> \<open>AppendNode node\<close>: \<open>el.appendChild(node)\<close>
  \<^item> \<open>RemoveItem i\<close>: \<open>el.removeChild(el.childNodes.item(i))\<close>
  A node or a string that the closure holds was resolved when the effect was queued; an
  index is resolved against the child list only when the effect runs.
\<close>

datatype action =
    InsertCreatedBefore "vnode list option" nat "node option"
  | RemoveChild "node option"
  | ClearTextContent
  | AppendCreated vnode
  | InsertAfterItem "node option" int
  | InsertBeforeItem "node option" int
  | InsertCachedOrCreated "node option" vnode int
  | SetTextContent "string option"
  | AppendNode node
  | RemoveItem int

record Effect =
  kind :: EffectTypes
  host :: node
  flush :: action

text \<open>
  The mutable world: the child list of every host node (\<open>el.childNodes\<close>), the hidden
  object pool of every host node (\<open>el[NODE_OBJECT_POOL_FIELD]\<close>, \<open>None\<close> while the
  field is not set), and the contents of every effect array. The pool is only ever read
  by \<open>get\<close> followed by \<open>??\<close>, so a stored \<open>null\<close> and a missing entry are the
  same \<open>None\<close>.
\<close>

record world =
  childNodes :: "node \<Rightarrow> node list"
  pool :: "node \<Rightarrow> (vkey \<Rightarrow> node option) option"
  arrays :: "array_ref \<Rightarrow> Effect list"

text \<open>\<open>el.childNodes.item(i)\<close>: \<open>null\<close> out of range.\<close>

definition item :: "world \<Rightarrow> node \<Rightarrow> int \<Rightarrow> node option" where
  "item w el i = at (childNodes w el) i"

text \<open>The record every driver returns (\<open>ReturnType<Driver>\<close>). Functions are
  JavaScript references: the commit function and the drivers are opaque values of types
  \<open>'c\<close> and \<open>'d\<close>, and what calling them does is given by the environment below.\<close>

record ('c, 'd) data =
  data_el :: "node option"
  data_newVNode :: velement
  data_oldVNode :: "velement option"
  data_effects :: "array_ref option"
  data_commit :: 'c
  data_driver :: "'d option"

text \<open>The local state of one call: the current value of the variable \<open>effects\<close>
  (reassigned by the recursive calls) and the world.\<close>

type_synonym lstate = "array_ref option \<times> world"

text \<open>
  The external collaborators, as parameters. A result \<open>None\<close> is an exception that
  propagates out of the call.
  \<^item> \<open>call_commit c work data\<close>: the call \<open>commit(work, data)\<close>;
  \<^item> \<open>call_driver d el newVNode oldVNode commit effects driver\<close>: the call of the driver
    \<open>d\<close>, giving the \<open>effects\<close> field of the record it returns;
  \<^item> \<open>createElement v\<close>: the node factory \<open>createElement(v, false)\<close>.
\<close>

record ('c, 'd) env =
  call_commit :: "'c \<Rightarrow> (lstate \<Rightarrow> lstate option) \<Rightarrow> ('c, 'd) data \<Rightarrow> lstate \<Rightarrow> lstate option"
  call_driver :: "'d \<Rightarrow> node option \<Rightarrow> vnode option \<Rightarrow> vnode option \<Rightarrow> 'c \<Rightarrow>
    array_ref option \<Rightarrow> 'd option \<Rightarrow> world \<Rightarrow> (array_ref option \<times> world) option"
  createElement :: "vnode \<Rightarrow> world \<Rightarrow> node \<times> world"

text \<open>The default of the parameter \<open>commit\<close> is \<open>(work) => work()\<close>.\<close>

definition default_commit :: "('c, 'd) env \<Rightarrow> 'c \<Rightarrow> bool" where
  "default_commit E c = (call_commit E c = (\<lambda>work d. work))"

section \<open>The effect queue\<close>

text \<open>Modelled from the spec: \<open>../effect\<close> is not part of the sources at hand.
  \<open>queueEffect(kind, action)\<close> appends \<open>(kind, action)\<close> to the effect sequence that
  \<open>effect(el, effects)\<close> was given; nothing else happens at queue time.\<close>

definition effect :: "node \<Rightarrow> array_ref \<Rightarrow> EffectTypes \<Rightarrow> action \<Rightarrow> world \<Rightarrow> world" where
  "effect el effects0 t f w =
     w\<lparr>arrays := (arrays w)(effects0 := arrays w effects0 @ [\<lparr>kind = t, host = el, flush = f\<rparr>])\<rparr>"

section \<open>\<open>useChildren\<close>\<close>

definition getData :: "velement \<Rightarrow> velement option \<Rightarrow> 'c \<Rightarrow> 'd option \<Rightarrow>
    node option \<Rightarrow> array_ref option \<Rightarrow> ('c, 'd) data" where
  "getData newVNode oldVNode commit driver element effects =
     \<lparr>data_el = element, data_newVNode = newVNode, data_oldVNode = oldVNode,
      data_effects = effects, data_commit = commit, data_driver = driver\<rparr>"

text \<open>\<open>diff(el, newVNode, oldVNode)\<close> is
  \<open>driver!(el, newVNode, oldVNode, commit, effects).effects!\<close>: calling an absent
  driver throws; the variable \<open>effects\<close> is read when the call runs.\<close>

definition diff :: "('c, 'd) env \<Rightarrow> 'c \<Rightarrow> 'd option \<Rightarrow> node option \<Rightarrow> vnode option \<Rightarrow>
    vnode option \<Rightarrow> lstate \<Rightarrow> lstate option" where
  "diff E commit driver child nv ov s =
     (case driver of
        None \<Rightarrow> None
      | Some d \<Rightarrow> call_driver E d child nv ov commit (fst s) None (snd s))"

text \<open>The loop of \<open>finish\<close> over \<open>drivers\<close>; the record a driver returns is dropped.\<close>

fun finish_loop :: "('c, 'd) env \<Rightarrow> 'd list \<Rightarrow> node \<Rightarrow> velement \<Rightarrow> velement option \<Rightarrow> 'c \<Rightarrow>
    'd option \<Rightarrow> ('c, 'd) data \<Rightarrow> lstate \<Rightarrow> lstate option" where
  "finish_loop E [] el newVNode oldVNode commit driver d s = Some s"
| "finish_loop E (dr # drivers) el newVNode oldVNode commit driver d s =
     do {
       s' \<leftarrow> call_commit E commit
         (\<lambda>t. do {
            r \<leftarrow> call_driver E dr (Some el) (Some (VElem newVNode)) (map_option VElem oldVNode)
                  commit (fst t) driver (snd t);
            Some (fst t, snd r)
          }) d s;
       finish_loop E drivers el newVNode oldVNode commit driver d s'
     }"

definition finish :: "('c, 'd) env \<Rightarrow> 'd list \<Rightarrow> node \<Rightarrow> velement \<Rightarrow> velement option \<Rightarrow> 'c \<Rightarrow>
    'd option \<Rightarrow> node \<Rightarrow> lstate \<Rightarrow> (('c, 'd) data \<times> world) option" where
  "finish E drivers el newVNode oldVNode commit driver element s =
     (let d = getData newVNode oldVNode commit driver (Some element) (fst s) in
      do {
        s' \<leftarrow> finish_loop E drivers el newVNode oldVNode commit driver d s;
        Some (d, snd s')
      })"

text \<open>\<open>oldVNodeChildren\<close> is \<open>oldVNode?.children ?? []\<close> (line 50): the empty array
  stands in for absent children only. \<open>old_children\<close> is that value read by index, and
  \<open>new_children\<close> is \<open>newVNode.children\<close> (line 51) read by index.\<close>

definition old_children_of :: "velement option \<Rightarrow> vchildren" where
  "old_children_of oldVNode =
     (case oldVNode of
        None \<Rightarrow> ChildArray []
      | Some ov \<Rightarrow> (case children ov of None \<Rightarrow> ChildArray [] | Some c \<Rightarrow> c))"

definition old_children :: "velement option \<Rightarrow> vnode list" where
  "old_children oldVNode = elements (old_children_of oldVNode)"

definition new_children :: "velement \<Rightarrow> vnode list option" where
  "new_children newVNode = map_option elements (children newVNode)"

subsection \<open>Deltas (lines 60 to 86)\<close>

fun delta_loop :: "('c, 'd) env \<Rightarrow> node \<Rightarrow> velement \<Rightarrow> velement option \<Rightarrow> 'c \<Rightarrow> array_ref \<Rightarrow>
    'd option \<Rightarrow> Delta list \<Rightarrow> lstate \<Rightarrow> lstate option" where
  "delta_loop E el newVNode oldVNode commit effects0 driver [] s = Some s"
| "delta_loop E el newVNode oldVNode commit effects0 driver ((deltaType, deltaPosition) # rest) s =
     (let oldVNodeChildren = old_children oldVNode;
          newVNodeChildren = new_children newVNode;
          child = item (snd s) el (int deltaPosition);
          s1 = (if deltaType = Delta_CREATE
                then (fst s, effect el effects0 Effect_CREATE
                        (InsertCreatedBefore newVNodeChildren deltaPosition child) (snd s))
                else s)
      in do {
        s2 \<leftarrow> (if deltaType = Delta_UPDATE
               then call_commit E commit
                      (\<lambda>t. case newVNodeChildren of
                              None \<Rightarrow> None
                            | Some ncs \<Rightarrow> diff E commit driver child (at ncs (int deltaPosition))
                                (at oldVNodeChildren (int deltaPosition)) t)
                      (getData newVNode oldVNode commit driver child (fst s1)) s1
               else Some s1);
        delta_loop E el newVNode oldVNode commit effects0 driver rest
          (if deltaType = Delta_REMOVE
           then (fst s2, effect el effects0 Effect_REMOVE (RemoveChild child) (snd s2))
           else s2)
      })"

subsection \<open>Flags (lines 91 to 105)\<close>

definition no_children_path :: "node \<Rightarrow> array_ref \<Rightarrow> vchildren \<Rightarrow> world \<Rightarrow> world" where
  "no_children_path el effects0 oldVNodeChildren w =
     (if falsy oldVNodeChildren then w
      else effect el effects0 Effect_REMOVE ClearTextContent w)"

function append_loop :: "node \<Rightarrow> array_ref \<Rightarrow> vnode list \<Rightarrow> nat \<Rightarrow> world \<Rightarrow> world" where
  "append_loop el effects0 newVNodeChildren i w =
     (if i < length newVNodeChildren
      then append_loop el effects0 newVNodeChildren (i + 1)
             (effect el effects0 Effect_CREATE (AppendCreated (newVNodeChildren ! i)) w)
      else w)"
  by pat_completeness auto
termination
  by (relation "measure (\<lambda>(el, effects0, newVNodeChildren, i, w). length newVNodeChildren - i)") auto

declare append_loop.simps [simp del]

subsection \<open>Keyed children (lines 261 to 359)\<close>

record cursors =
  oldHead :: int
  newHead :: int
  oldTail :: int
  newTail :: int

text \<open>The loop of lines 269 to 296. Reading \<open>.key\<close> of an element that is out of
  range throws.\<close>

function trim_loop :: "node \<Rightarrow> array_ref \<Rightarrow> vnode list \<Rightarrow> vnode list \<Rightarrow> cursors \<Rightarrow> world \<Rightarrow>
    (cursors \<times> world) option" where
  "trim_loop el effects0 oldVNodeChildren newVNodeChildren c w =
     (if oldHead c \<le> oldTail c \<and> newHead c \<le> newTail c then
        do {
          oldTailVNode \<leftarrow> at oldVNodeChildren (oldTail c);
          newTailVNode \<leftarrow> at newVNodeChildren (newTail c);
          if key_of oldTailVNode = key_of newTailVNode then
            trim_loop el effects0 oldVNodeChildren newVNodeChildren
              (c\<lparr>oldTail := oldTail c - 1, newTail := newTail c - 1\<rparr>) w
          else do {
            oldHeadVNode \<leftarrow> at oldVNodeChildren (oldHead c);
            newHeadVNode \<leftarrow> at newVNodeChildren (newHead c);
            if key_of oldHeadVNode = key_of newHeadVNode then
              trim_loop el effects0 oldVNodeChildren newVNodeChildren
                (c\<lparr>oldHead := oldHead c + 1, newHead := newHead c + 1\<rparr>) w
            else if key_of oldHeadVNode = key_of newTailVNode then
              trim_loop el effects0 oldVNodeChildren newVNodeChildren
                (c\<lparr>oldHead := oldHead c + 1, newTail := newTail c - 1\<rparr>)
                (effect el effects0 Effect_CREATE
                   (InsertAfterItem (item w el (oldHead c)) (newTail c)) w)
            else if key_of oldTailVNode = key_of newHeadVNode then
              trim_loop el effects0 oldVNodeChildren newVNodeChildren
                (c\<lparr>oldTail := oldTail c - 1, newHead := newHead c + 1\<rparr>)
                (effect el effects0 Effect_CREATE
                   (InsertBeforeItem (item w el (oldTail c)) (newHead c)) w)
            else Some (c, w)
          }
        }
      else Some (c, w))"
  by pat_completeness auto
termination
  by (relation "measure (\<lambda>(el, effects0, oldVNodeChildren, newVNodeChildren, c, w).
        nat (oldTail c - oldHead c + 1) + nat (newTail c - newHead c + 1))") auto

declare trim_loop.simps [simp del]

text \<open>\<open>el[NODE_OBJECT_POOL_FIELD].set(k, node)\<close>, on a pool that is set.\<close>

definition pool_set :: "node \<Rightarrow> (vkey \<Rightarrow> node option) \<Rightarrow> vkey \<Rightarrow> node option \<Rightarrow> world \<Rightarrow> world" where
  "pool_set el p k node w = w\<lparr>pool := (pool w)(el := Some (p(k := node)))\<rparr>"

text \<open>Lines 300 to 311. Calling \<open>get\<close> on an unset pool throws.\<close>

function insert_loop :: "node \<Rightarrow> array_ref \<Rightarrow> vnode list \<Rightarrow> cursors \<Rightarrow> world \<Rightarrow> world option" where
  "insert_loop el effects0 newVNodeChildren c w =
     (if newHead c \<le> newTail c then
        do {
          let head = newHead c;
          p \<leftarrow> pool w el;
          v \<leftarrow> at newVNodeChildren head;
          let cachedNode = p (key_of v);
          insert_loop el effects0 newVNodeChildren (c\<lparr>newHead := newHead c + 1\<rparr>)
            (effect el effects0 Effect_CREATE (InsertCachedOrCreated cachedNode v head) w)
        }
      else Some w)"
  by pat_completeness auto
termination
  by (relation "measure (\<lambda>(el, effects0, newVNodeChildren, c, w).
        nat (newTail c - newHead c + 1))") auto

declare insert_loop.simps [simp del]

text \<open>Lines 314 to 319.\<close>

function remove_loop :: "node \<Rightarrow> array_ref \<Rightarrow> vnode list \<Rightarrow> cursors \<Rightarrow> world \<Rightarrow> world option" where
  "remove_loop el effects0 oldVNodeChildren c w =
     (if oldHead c \<le> oldTail c then
        do {
          let head = oldHead c;
          let node = item w el head;
          p \<leftarrow> pool w el;
          v \<leftarrow> at oldVNodeChildren head;
          remove_loop el effects0 oldVNodeChildren (c\<lparr>oldHead := oldHead c + 1\<rparr>)
            (effect el effects0 Effect_REMOVE (RemoveChild node) (pool_set el p (key_of v) node w))
        }
      else Some w)"
  by pat_completeness auto
termination
  by (relation "measure (\<lambda>(el, effects0, oldVNodeChildren, c, w).
        nat (oldTail c - oldHead c + 1))") auto

declare remove_loop.simps [simp del]

text \<open>Lines 322 to 326. \<open>oldKeyMap\<close> is a JavaScript \<open>Map\<close>: \<open>set\<close> on a key that is
  present replaces the value in place, on a new key it appends; iteration is in that
  order. This is \<open>AList.update\<close> on an association list.\<close>

function index_loop :: "vnode list \<Rightarrow> cursors \<Rightarrow> (vkey \<times> int) list \<Rightarrow>
    (cursors \<times> (vkey \<times> int) list) option" where
  "index_loop oldVNodeChildren c oldKeyMap =
     (if oldHead c \<le> oldTail c then
        do {
          v \<leftarrow> at oldVNodeChildren (oldHead c);
          index_loop oldVNodeChildren (c\<lparr>oldHead := oldHead c + 1\<rparr>)
            (AList.update (key_of v) (oldHead c) oldKeyMap)
        }
      else Some (c, oldKeyMap))"
  by pat_completeness auto
termination
  by (relation "measure (\<lambda>(oldVNodeChildren, c, oldKeyMap).
        nat (oldTail c - oldHead c + 1))") auto

declare index_loop.simps [simp del]

text \<open>Lines 328 to 348.\<close>

function walk_loop :: "node \<Rightarrow> array_ref \<Rightarrow> vnode list \<Rightarrow> cursors \<Rightarrow> (vkey \<times> int) list \<Rightarrow> world \<Rightarrow>
    ((vkey \<times> int) list \<times> world) option" where
  "walk_loop el effects0 newVNodeChildren c oldKeyMap w =
     (if newHead c \<le> newTail c then
        do {
          let head = newHead c;
          newVNodeChild \<leftarrow> at newVNodeChildren head;
          (case map_of oldKeyMap (key_of newVNodeChild) of
             Some oldIndex \<Rightarrow>
               walk_loop el effects0 newVNodeChildren (c\<lparr>newHead := newHead c + 1\<rparr>)
                 (AList.delete (key_of newVNodeChild) oldKeyMap)
                 (effect el effects0 Effect_CREATE
                    (InsertBeforeItem (item w el oldIndex) head) w)
           | None \<Rightarrow>
               do {
                 p \<leftarrow> pool w el;
                 let cachedNode = p (key_of newVNodeChild);
                 walk_loop el effects0 newVNodeChildren (c\<lparr>newHead := newHead c + 1\<rparr>)
                   oldKeyMap
                   (effect el effects0 Effect_CREATE
                      (InsertCachedOrCreated cachedNode newVNodeChild head) w)
               })
        }
      else Some (oldKeyMap, w))"
  by pat_completeness auto
termination
  by (relation "measure (\<lambda>(el, effects0, newVNodeChildren, c, oldKeyMap, w).
        nat (newTail c - newHead c + 1))") auto

declare walk_loop.simps [simp del]

text \<open>Lines 351 to 355.\<close>

fun cleanup_loop :: "node \<Rightarrow> array_ref \<Rightarrow> (vkey \<times> int) list \<Rightarrow> world \<Rightarrow> world option" where
  "cleanup_loop el effects0 [] w = Some w"
| "cleanup_loop el effects0 ((oldVNodeKey, oldVNodeValue) # rest) w =
     do {
       let node = item w el oldVNodeValue;
       p \<leftarrow> pool w el;
       cleanup_loop el effects0 rest
         (effect el effects0 Effect_REMOVE (RemoveChild node) (pool_set el p oldVNodeKey node w))
     }"

definition keyed_path :: "node \<Rightarrow> array_ref \<Rightarrow> vnode list \<Rightarrow> vnode list \<Rightarrow> world \<Rightarrow> world option" where
  "keyed_path el effects0 oldVNodeChildren newVNodeChildren w =
     (let w1 = (if pool w el = None then w\<lparr>pool := (pool w)(el := Some (\<lambda>k. None))\<rparr> else w);
          c0 = \<lparr>oldHead = 0, newHead = 0,
                oldTail = int (length oldVNodeChildren) - 1,
                newTail = int (length newVNodeChildren) - 1\<rparr>
      in do {
        (c, w2) \<leftarrow> trim_loop el effects0 oldVNodeChildren newVNodeChildren c0 w1;
        if oldHead c > oldTail c then insert_loop el effects0 newVNodeChildren c w2
        else if newHead c > newTail c then remove_loop el effects0 oldVNodeChildren c w2
        else do {
          (c', oldKeyMap) \<leftarrow> index_loop oldVNodeChildren c [];
          (oldKeyMap', w3) \<leftarrow> walk_loop el effects0 newVNodeChildren c' oldKeyMap w2;
          cleanup_loop el effects0 oldKeyMap' w3
        }
      })"

subsection \<open>Text children (lines 361 to 372)\<close>

text \<open>\<open>Array.prototype.join\<close> turns each element into a string: a string is
  itself, a \<open>VElement\<close> (a plain object) is \<open>[object Object]\<close>.\<close>

fun to_string :: "vnode \<Rightarrow> string" where
  "to_string (VText s) = s"
| "to_string (VElem e) = ''[object Object]''"

definition join :: "vnode list \<Rightarrow> string" where
  "join xs = concat (map to_string xs)"

text \<open>\<open>Array.isArray(v?.children) ? v?.children.join('') : v?.children\<close>: an array
  is joined, a string is taken as it is, absent children stay \<open>undefined\<close>.\<close>

fun flatten :: "vchildren \<Rightarrow> string" where
  "flatten (ChildArray xs) = join xs"
| "flatten (ChildString s) = s"

definition children_string :: "velement option \<Rightarrow> string option" where
  "children_string v = (case v of None \<Rightarrow> None | Some e \<Rightarrow> map_option flatten (children e))"

definition text_path :: "node \<Rightarrow> array_ref \<Rightarrow> velement \<Rightarrow> velement option \<Rightarrow> world \<Rightarrow> world" where
  "text_path el effects0 newVNode oldVNode w =
     (let oldString = children_string oldVNode;
          newString = children_string (Some newVNode)
      in if oldString \<noteq> newString
         then effect el effects0 Effect_REPLACE (SetTextContent newString) w
         else w)"

subsection \<open>Children without keys (lines 374 to 404)\<close>

text \<open>The loop of lines 379 to 387, \<open>diff_loop \<dots> n\<close> running \<open>i\<close> from \<open>n - 1\<close>
  down to \<open>0\<close>. The child \<open>el.childNodes.item(i)\<close> is read when the work runs.\<close>

fun diff_loop :: "('c, 'd) env \<Rightarrow> node \<Rightarrow> velement \<Rightarrow> velement option \<Rightarrow> 'c \<Rightarrow> 'd option \<Rightarrow>
    vnode list \<Rightarrow> vnode list \<Rightarrow> nat \<Rightarrow> lstate \<Rightarrow> lstate option" where
  "diff_loop E el newVNode oldVNode commit driver newVNodeChildren oldVNodeChildren 0 s = Some s"
| "diff_loop E el newVNode oldVNode commit driver newVNodeChildren oldVNodeChildren (Suc i) s =
     do {
       s' \<leftarrow> call_commit E commit
               (\<lambda>t. diff E commit driver (item (snd t) el (int i))
                      (at newVNodeChildren (int i)) (at oldVNodeChildren (int i)) t)
               (getData newVNode oldVNode commit driver (Some el) (fst s)) s;
       diff_loop E el newVNode oldVNode commit driver newVNodeChildren oldVNodeChildren i s'
     }"

text \<open>Lines 390 to 393 and 400 to 403: the node is created when the effect is queued.\<close>

function create_loop :: "('c, 'd) env \<Rightarrow> node \<Rightarrow> array_ref \<Rightarrow> vnode list \<Rightarrow> nat \<Rightarrow> world \<Rightarrow> world" where
  "create_loop E el effects0 newVNodeChildren i w =
     (if i < length newVNodeChildren then
        (let r = createElement E (newVNodeChildren ! i) w
         in create_loop E el effects0 newVNodeChildren (i + 1)
              (effect el effects0 Effect_CREATE (AppendNode (fst r)) (snd r)))
      else w)"
  by pat_completeness auto
termination
  by (relation "measure (\<lambda>(E, el, effects0, newVNodeChildren, i, w). length newVNodeChildren - i)") auto

declare create_loop.simps [simp del]

text \<open>Lines 395 to 397.\<close>

function remove_item_loop :: "node \<Rightarrow> array_ref \<Rightarrow> int \<Rightarrow> int \<Rightarrow> world \<Rightarrow> world" where
  "remove_item_loop el effects0 commonLength i w =
     (if i \<ge> commonLength
      then remove_item_loop el effects0 commonLength (i - 1)
             (effect el effects0 Effect_REMOVE (RemoveItem i) w)
      else w)"
  by pat_completeness auto
termination
  by (relation "measure (\<lambda>(el, effects0, commonLength, i, w). nat (i - commonLength + 1))") auto

declare remove_item_loop.simps [simp del]

text \<open>Here \<open>ocs\<close> and \<open>ncs\<close> are \<open>oldVNodeChildren\<close> and \<open>newVNodeChildren\<close> read
  by index.\<close>

definition generic_path :: "('c, 'd) env \<Rightarrow> node \<Rightarrow> velement \<Rightarrow> velement option \<Rightarrow> 'c \<Rightarrow>
    array_ref \<Rightarrow> 'd option \<Rightarrow> vchildren \<Rightarrow> vchildren option \<Rightarrow> lstate \<Rightarrow> lstate option" where
  "generic_path E el newVNode oldVNode commit effects0 driver oldVNodeChildren newVNodeChildren s =
     (let ocs = elements oldVNodeChildren;
          ncs = (case newVNodeChildren of None \<Rightarrow> [] | Some c \<Rightarrow> elements c)
      in
      if \<not> falsy oldVNodeChildren \<and> \<not> falsy_opt newVNodeChildren then
        (let commonLength = min (length ocs) (length ncs) in
         do {
           s' \<leftarrow> diff_loop E el newVNode oldVNode commit driver ncs ocs commonLength s;
           if length ncs > length ocs then
             Some (fst s', create_loop E el effects0 ncs commonLength (snd s'))
           else if length ncs < length ocs then
             Some (fst s', remove_item_loop el effects0 (int commonLength)
                             (int (length ocs) - 1) (snd s'))
           else Some s'
         })
      else if \<not> falsy_opt newVNodeChildren then
        Some (fst s, create_loop E el effects0 ncs 0 (snd s))
      else Some s)"

subsection \<open>The driver\<close>

text \<open>The parameters \<open>commit\<close> and \<open>effects\<close> are given: a caller that leaves them
  out gets \<open>(work) => work()\<close> and a new empty array. Every path ends in \<open>finish(el)\<close>.\<close>

definition reconcile :: "('c, 'd) env \<Rightarrow> node \<Rightarrow> velement \<Rightarrow> velement option \<Rightarrow> 'c \<Rightarrow>
    array_ref \<Rightarrow> 'd option \<Rightarrow> world \<Rightarrow> lstate option" where
  "reconcile E el newVNode oldVNode commit effects driver w =
     (let oldVNodeChildren = old_children_of oldVNode;
          newVNodeChildren = children newVNode;
          ocs = elements oldVNodeChildren;
          ncs = (case newVNodeChildren of None \<Rightarrow> [] | Some c \<Rightarrow> elements c)
      in case delta newVNode of
           Some ds \<Rightarrow> delta_loop E el newVNode oldVNode commit effects driver ds (Some effects, w)
         | None \<Rightarrow>
             if falsy_opt newVNodeChildren \<or> flag newVNode = Some ELEMENT_NO_CHILDREN then
               Some (Some effects, no_children_path el effects oldVNodeChildren w)
             else if falsy oldVNodeChildren \<or> length ocs = 0 then
               Some (Some effects, append_loop el effects ncs 0 w)
             else if flag newVNode = Some ELEMENT_KEYED_CHILDREN then
               do {
                 w' \<leftarrow> keyed_path el effects ocs ncs w;
                 Some (Some effects, w')
               }
             else if flag newVNode = Some ELEMENT_TEXT_CHILDREN then
               Some (Some effects, text_path el effects newVNode oldVNode w)
             else
               generic_path E el newVNode oldVNode commit effects driver oldVNodeChildren
                 newVNodeChildren (Some effects, w))"

definition useChildren :: "'d list \<Rightarrow> ('c, 'd) env \<Rightarrow> node \<Rightarrow> velement \<Rightarrow> velement option \<Rightarrow> 'c \<Rightarrow>
    array_ref \<Rightarrow> 'd option \<Rightarrow> world \<Rightarrow> (('c, 'd) data \<times> world) option" where
  "useChildren drivers E el newVNode oldVNode commit effects driver w =
     do {
       s \<leftarrow> reconcile E el newVNode oldVNode commit effects driver w;
       finish E drivers el newVNode oldVNode commit driver el s
     }"

section \<open>The precedence of the paths, as the specification words it\<close>

text \<open>The reconciliation paths, and the choice among them in the order the
  specification gives: an explicit patch list first, then the fast paths (no children,
  append only, text children), then keyed children, then the generic path.\<close>

datatype path = DeltaReplay | NoChildren | AppendOnly | TextChildren | Keyed | Unkeyed

definition fast_path :: "velement \<Rightarrow> velement option \<Rightarrow> path option" where
  "fast_path newVNode oldVNode =
     (if falsy_opt (children newVNode) \<or> flag newVNode = Some ELEMENT_NO_CHILDREN
      then Some NoChildren
      else if old_children oldVNode = [] then Some AppendOnly
      else if flag newVNode = Some ELEMENT_TEXT_CHILDREN then Some TextChildren
      else None)"

definition select_path :: "velement \<Rightarrow> velement option \<Rightarrow> path" where
  "select_path newVNode oldVNode =
     (if delta newVNode \<noteq> None then DeltaReplay
      else case fast_path newVNode oldVNode of
             Some p \<Rightarrow> p
           | None \<Rightarrow> if flag newVNode = Some ELEMENT_KEYED_CHILDREN then Keyed else Unkeyed)"

text \<open>Running one path, and nothing else.\<close>

fun run_path :: "path \<Rightarrow> ('c, 'd) env \<Rightarrow> node \<Rightarrow> velement \<Rightarrow> velement option \<Rightarrow> 'c \<Rightarrow>
    array_ref \<Rightarrow> 'd option \<Rightarrow> world \<Rightarrow> lstate option" where
  "run_path DeltaReplay E el newVNode oldVNode commit effects driver w =
     delta_loop E el newVNode oldVNode commit effects driver
       (case delta newVNode of None \<Rightarrow> [] | Some ds \<Rightarrow> ds) (Some effects, w)"
| "run_path NoChildren E el newVNode oldVNode commit effects driver w =
     Some (Some effects, no_children_path el effects (old_children_of oldVNode) w)"
| "run_path AppendOnly E el newVNode oldVNode commit effects driver w =
     Some (Some effects,
       append_loop el effects (case new_children newVNode of None \<Rightarrow> [] | Some ncs \<Rightarrow> ncs) 0 w)"
| "run_path TextChildren E el newVNode oldVNode commit effects driver w =
     Some (Some effects, text_path el effects newVNode oldVNode w)"
| "run_path Keyed E el newVNode oldVNode commit effects driver w =
     map_option (Pair (Some effects))
       (keyed_path el effects (old_children oldVNode)
          (case new_children newVNode of None \<Rightarrow> [] | Some ncs \<Rightarrow> ncs) w)"
| "run_path Unkeyed E el newVNode oldVNode commit effects driver w =
     generic_path E el newVNode oldVNode commit effects driver (old_children_of oldVNode)
       (children newVNode) (Some effects, w)"

section \<open>Notions used in the statements\<close>

text \<open>The world after the effects \<open>es\<close> have been appended to the array
  \<open>effects0\<close>, and the world in which the pool of \<open>el\<close> is \<open>p\<close>.\<close>

definition queued :: "array_ref \<Rightarrow> Effect list \<Rightarrow> world \<Rightarrow> world" where
  "queued effects0 es w = w\<lparr>arrays := (arrays w)(effects0 := arrays w effects0 @ es)\<rparr>"

definition with_pool :: "node \<Rightarrow> (vkey \<Rightarrow> node option) \<Rightarrow> world \<Rightarrow> world" where
  "with_pool el p w = w\<lparr>pool := (pool w)(el := Some p)\<rparr>"

text \<open>The trim loop stops at \<open>c\<close>: a range is empty, or none of the four key
  comparisons succeeds.\<close>

definition trim_exit :: "vnode list \<Rightarrow> vnode list \<Rightarrow> cursors \<Rightarrow> bool" where
  "trim_exit oldVNodeChildren newVNodeChildren c =
     (oldHead c > oldTail c \<or> newHead c > newTail c \<or>
      (key_of (oldVNodeChildren ! nat (oldTail c)) \<noteq> key_of (newVNodeChildren ! nat (newTail c)) \<and>
       key_of (oldVNodeChildren ! nat (oldHead c)) \<noteq> key_of (newVNodeChildren ! nat (newHead c)) \<and>
       key_of (oldVNodeChildren ! nat (oldHead c)) \<noteq> key_of (newVNodeChildren ! nat (newTail c)) \<and>
       key_of (oldVNodeChildren ! nat (oldTail c)) \<noteq> key_of (newVNodeChildren ! nat (newHead c))))"

text \<open>A move effect: of kind CREATE, it inserts a host child that \<open>el\<close> already has
  (the node at some index of the child list of \<open>w\<close>); the node factory is not
  involved.\<close>

definition is_move :: "world \<Rightarrow> node \<Rightarrow> Effect \<Rightarrow> bool" where
  "is_move w el e = (kind e = Effect_CREATE \<and> host e = el \<and>
     (\<exists>i j. flush e = InsertAfterItem (item w el i) j \<or> flush e = InsertBeforeItem (item w el i) j))"

text \<open>The pool of \<open>el\<close>, empty while the field is not set.\<close>

definition pool_or_empty :: "world \<Rightarrow> node \<Rightarrow> vkey \<Rightarrow> node option" where
  "pool_or_empty w el = (case pool w el of None \<Rightarrow> (\<lambda>k. None) | Some p \<Rightarrow> p)"

text \<open>The effects of the keyed reconciler for a removal and for an insertion: the
  REMOVE effect of the host child at index \<open>i\<close>, and the CREATE effect that inserts
  the new child at index \<open>i\<close>, holding what the pool \<open>p\<close> has under its key.\<close>

definition remove_effect :: "node \<Rightarrow> world \<Rightarrow> int \<Rightarrow> Effect" where
  "remove_effect el w i = \<lparr>kind = Effect_REMOVE, host = el, flush = RemoveChild (item w el i)\<rparr>"

definition insert_effect :: "node \<Rightarrow> (vkey \<Rightarrow> node option) \<Rightarrow> vnode list \<Rightarrow> int \<Rightarrow> Effect" where
  "insert_effect el p newVNodeChildren i =
     \<lparr>kind = Effect_CREATE, host = el,
      flush = InsertCachedOrCreated (p (key_of (newVNodeChildren ! nat i))) (newVNodeChildren ! nat i) i\<rparr>"

text \<open>The pool \<open>p\<close> after the host children at the indices \<open>removed\<close> have been
  stored, one after the other, each under the key of the old child at its index.\<close>

definition store_removed :: "node \<Rightarrow> world \<Rightarrow> vnode list \<Rightarrow> int list \<Rightarrow> (vkey \<Rightarrow> node option) \<Rightarrow>
    (vkey \<Rightarrow> node option)" where
  "store_removed el w oldVNodeChildren removed p =
     fold (\<lambda>i q. q(key_of (oldVNodeChildren ! nat i) := item w el i)) removed p"

text \<open>Running \<open>f\<close> on each element of a list in list order, stopping at the first
  exception.\<close>

fun in_order :: "('a \<Rightarrow> 's \<Rightarrow> 's option) \<Rightarrow> 'a list \<Rightarrow> 's \<Rightarrow> 's option" where
  "in_order f [] s = Some s"
| "in_order f (x # xs) s = Option.bind (f x s) (in_order f xs)"

text \<open>The generic path, as the specification words it: the recursive reconciliation
  of the children at index \<open>i\<close>, handed to \<open>commit\<close>; the creation of one new child
  with its append effect; the REMOVE effect of the host child at index \<open>i\<close>.\<close>

definition reconcile_child :: "('c, 'd) env \<Rightarrow> node \<Rightarrow> velement \<Rightarrow> velement option \<Rightarrow> 'c \<Rightarrow>
    'd option \<Rightarrow> vnode list \<Rightarrow> vnode list \<Rightarrow> nat \<Rightarrow> lstate \<Rightarrow> lstate option" where
  "reconcile_child E el newVNode oldVNode commit driver newVNodeChildren oldVNodeChildren i s =
     call_commit E commit
       (\<lambda>t. diff E commit driver (item (snd t) el (int i))
              (at newVNodeChildren (int i)) (at oldVNodeChildren (int i)) t)
       (getData newVNode oldVNode commit driver (Some el) (fst s)) s"

definition append_created :: "('c, 'd) env \<Rightarrow> node \<Rightarrow> array_ref \<Rightarrow> vnode \<Rightarrow> world \<Rightarrow> world" where
  "append_created E el effects0 v w =
     (let r = createElement E v w
      in queued effects0 [\<lparr>kind = Effect_CREATE, host = el, flush = AppendNode (fst r)\<rparr>] (snd r))"

definition remove_item_effect :: "node \<Rightarrow> int \<Rightarrow> Effect" where
  "remove_item_effect el i = \<lparr>kind = Effect_REMOVE, host = el, flush = RemoveItem i\<rparr>"

text \<open>The key map holds, for each of its entries, an index into the old children and
  the key of the old child there.\<close>

definition indexed :: "vnode list \<Rightarrow> (vkey \<times> int) list \<Rightarrow> bool" where
  "indexed oldVNodeChildren m =
     list_all (\<lambda>kv. 0 \<le> snd kv \<and> snd kv < int (length oldVNodeChildren) \<and>
                    fst kv = key_of (oldVNodeChildren ! nat (snd kv))) m"

text \<open>An insertion effect of the keyed reconciler: the CREATE effect for the new child
  at some index, holding what the pool \<open>p\<close> has under the key of that child, a key that
  is not among \<open>removed_keys\<close>.\<close>

definition is_insertion :: "node \<Rightarrow> (vkey \<Rightarrow> node option) \<Rightarrow> vnode list \<Rightarrow> vkey set \<Rightarrow> Effect \<Rightarrow> bool" where
  "is_insertion el p newVNodeChildren removed_keys e =
     (\<exists>i. 0 \<le> i \<and> i < int (length newVNodeChildren) \<and> e = insert_effect el p newVNodeChildren i \<and>
          key_of (newVNodeChildren ! nat i) \<notin> removed_keys)"

text \<open>What the external collaborators may do to the state of a call, as a relation
  between the state before and after. \<open>same_children\<close>: the child list of \<open>el\<close> is
  left alone. \<open>queue_only\<close>: moreover the effect sequence in use is the same reference
  and the array \<open>effects0\<close> has only been appended to.\<close>

definition same_children :: "node \<Rightarrow> lstate \<Rightarrow> lstate \<Rightarrow> bool" where
  "same_children el s s' = (childNodes (snd s') el = childNodes (snd s) el)"

definition queue_only :: "node \<Rightarrow> array_ref \<Rightarrow> lstate \<Rightarrow> lstate \<Rightarrow> bool" where
  "queue_only el effects0 s s' =
     (fst s' = fst s \<and> childNodes (snd s') el = childNodes (snd s) el \<and>
      (\<exists>es. arrays (snd s') effects0 = arrays (snd s) effects0 @ es))"

text \<open>A driver respects \<open>R\<close> when each of its calls does; a commit function respects
  \<open>R\<close> when \<open>commit(work, data)\<close> does for every \<open>work\<close> that does (the default
  commit, a commit that drops or repeats the work); the node factory respects \<open>R\<close> when
  creating a node does.\<close>

definition driver_respects :: "(lstate \<Rightarrow> lstate \<Rightarrow> bool) \<Rightarrow> ('c, 'd) env \<Rightarrow> 'c \<Rightarrow> bool" where
  "driver_respects R E commit =
     (\<forall>d child nv ov ev dr w r.
        call_driver E d child nv ov commit ev dr w = Some r \<longrightarrow> R (ev, w) r)"

definition commit_respects :: "(lstate \<Rightarrow> lstate \<Rightarrow> bool) \<Rightarrow> ('c, 'd) env \<Rightarrow> 'c \<Rightarrow> bool" where
  "commit_respects R E commit =
     (\<forall>work dat s s'.
        (\<forall>t t'. work t = Some t' \<longrightarrow> R t t') \<longrightarrow>
        call_commit E commit work dat s = Some s' \<longrightarrow> R s s')"

definition factory_respects :: "(lstate \<Rightarrow> lstate \<Rightarrow> bool) \<Rightarrow> ('c, 'd) env \<Rightarrow> bool" where
  "factory_respects R E = (\<forall>v ev w. R (ev, w) (ev, snd (createElement E v w)))"


section \<open>Concrete collaborators and inputs\<close>

text \<open>A driver that queues nothing and returns the effect sequence it was given, the
  default commit, and a node factory that hands out one fixed node.\<close>

definition quiet_env :: "(unit, unit) env" where
  "quiet_env = \<lparr>call_commit = (\<lambda>c work d. work),
               call_driver = (\<lambda>d el nv ov c effs dr w. Some (effs, w)),
               createElement = (\<lambda>v w. (100, w))\<rparr>"

text \<open>A parent host node \<open>0\<close> with the four children \<open>1, 2, 3, 4\<close>, no pool and
  empty effect arrays.\<close>

definition world4 :: world where
  "world4 = \<lparr>childNodes = (\<lambda>n. if n = 0 then [1, 2, 3, 4] else []),
             pool = (\<lambda>n. None), arrays = (\<lambda>a. [])\<rparr>"

definition keyed_child :: "string \<Rightarrow> vnode" where
  "keyed_child k = VElem (VElement (Some (ChildArray [])) (Some k) None None)"

definition parent_of :: "vnode list \<Rightarrow> Flags option \<Rightarrow> velement" where
  "parent_of cs f = VElement (Some (ChildArray cs)) None f None"

text \<open>A driver that records its call: it queues one UPDATE effect on the host node it
  is given, holding the new child it is given. The node factory numbers the nodes it
  makes.\<close>

definition recording_env :: "(unit, unit) env" where
  "recording_env = \<lparr>call_commit = (\<lambda>c work d. work),
     call_driver = (\<lambda>d child nv ov c effs dr w. Some (effs,
        case (child, effs) of
          (Some n, Some a) \<Rightarrow>
            queued a [\<lparr>kind = Effect_UPDATE, host = n,
                        flush = SetTextContent (map_option to_string nv)\<rparr>] w
        | _ \<Rightarrow> w)),
     createElement = (\<lambda>v w. (100 + length (arrays w 0), w))\<rparr>"

text \<open>The parent \<open>0\<close> after the host child \<open>3\<close>, of key c, has been removed by a
  keyed pass: three children left, the removed node in the pool under its key.\<close>

definition world3 :: world where
  "world3 = \<lparr>childNodes = (\<lambda>n. if n = 0 then [1, 2, 4] else []),
             pool = (\<lambda>n. if n = 0 then Some ((\<lambda>k. None)(Some ''c'' := Some 3)) else None),
             arrays = (\<lambda>a. [])\<rparr>"

text \<open>A driver that returns another effect sequence than the one it was given.\<close>

definition replacing_env :: "(unit, unit) env" where
  "replacing_env = \<lparr>call_commit = (\<lambda>c work d. work),
     call_driver = (\<lambda>d child nv ov c effs dr w. Some (Some 7, w)),
     createElement = (\<lambda>v w. (100, w))\<rparr>"

section \<open>Basic facts\<close>

lemma finish_no_drivers:
  "finish E [] el newVNode oldVNode commit driver element s =
     Some (getData newVNode oldVNode commit driver (Some element) (fst s), snd s)"
  by (simp add: finish_def)

lemma useChildren_no_drivers:
  "useChildren [] E el newVNode oldVNode commit effects driver w =
     Option.bind (reconcile E el newVNode oldVNode commit effects driver w)
       (\<lambda>s. Some (getData newVNode oldVNode commit driver (Some el) (fst s), snd s))"
  by (simp add: useChildren_def finish_no_drivers)

lemma map_option_Pair_bind: "map_option (Pair a) x = Option.bind x (\<lambda>w'. Some (a, w'))"
  by (cases x) simp_all

lemma falsy_elements: "falsy c \<Longrightarrow> elements c = []"
  by (cases c) simp_all

lemma falsy_old_children_of:
  "falsy (old_children_of oldVNode) \<longleftrightarrow> Option.bind oldVNode children = Some (ChildString [])"
  by (cases oldVNode) (auto simp add: old_children_of_def split: option.splits elim: falsy.elims)

lemma new_children_list:
  "(case new_children newVNode of None \<Rightarrow> [] | Some ncs \<Rightarrow> ncs) =
     (case children newVNode of None \<Rightarrow> [] | Some c \<Rightarrow> elements c)"
  by (simp add: new_children_def split: option.splits)

lemma old_children_array [simp]:
  "old_children_of (Some (VElement (Some c) k f d)) = c"
  "old_children (Some (VElement (Some c) k f d)) = elements c"
  by (simp_all add: old_children_of_def old_children_def)

lemma new_children_VElement [simp]: "new_children (VElement c k f d) = map_option elements c"
  by (simp add: new_children_def)

lemma queued_Nil [simp]: "queued effects0 [] w = w"
  by (simp add: queued_def)

lemma queued_queued [simp]: "queued effects0 es' (queued effects0 es w) = queued effects0 (es @ es') w"
  by (simp add: queued_def)

lemma effect_queued: "effect el effects0 t f w = queued effects0 [\<lparr>kind = t, host = el, flush = f\<rparr>] w"
  by (simp add: effect_def queued_def)

lemma queued_fields [simp]:
  "childNodes (queued effects0 es w) = childNodes w"
  "pool (queued effects0 es w) = pool w"
  "arrays (queued effects0 es w) effects0 = arrays w effects0 @ es"
  "a \<noteq> effects0 \<Longrightarrow> arrays (queued effects0 es w) a = arrays w a"
  by (simp_all add: queued_def)

lemma item_queued [simp]: "item (queued effects0 es w) el i = item w el i"
  by (simp add: item_def)

lemma with_pool_fields [simp]:
  "childNodes (with_pool el p w) = childNodes w"
  "pool (with_pool el p w) el = Some p"
  "n \<noteq> el \<Longrightarrow> pool (with_pool el p w) n = pool w n"
  "arrays (with_pool el p w) = arrays w"
  by (simp_all add: with_pool_def)

lemma item_with_pool [simp]: "item (with_pool el p w) n i = item w n i"
  by (simp add: item_def)

lemma with_pool_same [simp]: "pool w el = Some p \<Longrightarrow> with_pool el p w = w"
  by (simp add: with_pool_def fun_upd_idem)

lemma with_pool_with_pool [simp]: "with_pool el q (with_pool el p w) = with_pool el q w"
  by (simp add: with_pool_def)

lemma with_pool_queued: "with_pool el p (queued effects0 es w) = queued effects0 es (with_pool el p w)"
  by (simp add: with_pool_def queued_def)

lemma pool_set_with_pool: "pool_set el p k node w = with_pool el (p(k := node)) w"
  by (simp add: pool_set_def with_pool_def)

lemma is_move_queued [simp]: "is_move (queued effects0 es w) el = is_move w el"
  by (simp add: is_move_def fun_eq_iff)

lemma is_move_with_pool [simp]: "is_move (with_pool n p w) el = is_move w el"
  by (simp add: is_move_def fun_eq_iff)

section \<open>Dispatch\<close>

lemma reconcile_dispatch:
  "reconcile E el newVNode oldVNode commit effects driver w =
     run_path (select_path newVNode oldVNode) E el newVNode oldVNode commit effects driver w"
proof (cases "delta newVNode")
  case (Some ds)
  then show ?thesis by (simp add: reconcile_def select_path_def)
next
  case None
  have "falsy (old_children_of oldVNode) \<or> length (elements (old_children_of oldVNode)) = 0
      \<longleftrightarrow> old_children oldVNode = []"
    by (auto simp add: old_children_def falsy_elements)
  with None show ?thesis
    by (simp add: reconcile_def select_path_def fast_path_def new_children_list
          map_option_Pair_bind old_children_def [symmetric])
qed

text \<open>Claim C2. Every call runs exactly one reconciliation path, the one the
  precedence of the specification selects: the delta replayer when the new node has a
  patch list; otherwise a fast path (no children, append only, text children) when one
  applies; otherwise the keyed reconciler when the flag is KEYED_CHILDREN; otherwise the
  generic path without keys.\<close>

theorem useChildren_runs_selected_path:
  "useChildren drivers E el newVNode oldVNode commit effects driver w =
     Option.bind
       (run_path (select_path newVNode oldVNode) E el newVNode oldVNode commit effects driver w)
       (finish E drivers el newVNode oldVNode commit driver el)"
  by (simp only: useChildren_def reconcile_dispatch)

section \<open>No children\<close>

text \<open>Claim C3. When the new children are absent (or the empty string) or the flag is
  NO_CHILDREN (and there is no patch list), the call queues exactly one REMOVE effect that
  clears the text content of the host node, whatever the old node is: also when the old
  node is absent or has no children, or has the empty array for children, where the claim
  asks for no effect. Only old children that are the empty string keep the call from
  queueing the effect.\<close>

theorem no_children_always_queues_remove:
  assumes "delta newVNode = None"
    and "children newVNode = None \<or> children newVNode = Some (ChildString [])
       \<or> flag newVNode = Some ELEMENT_NO_CHILDREN"
  shows "useChildren [] E el newVNode oldVNode commit effects driver w =
    Some (getData newVNode oldVNode commit driver (Some el) (Some effects),
          if Option.bind oldVNode children = Some (ChildString []) then w
          else effect el effects Effect_REMOVE ClearTextContent w)"
proof -
  from assms(2) have "falsy_opt (children newVNode) \<or> flag newVNode = Some ELEMENT_NO_CHILDREN"
    by auto
  with assms(1) show ?thesis
    by (simp add: useChildren_no_drivers reconcile_def no_children_path_def
          falsy_old_children_of)
qed

theorem no_children_always_queues_remove_witness:
  "arrays (snd (the (useChildren [] quiet_env 0 (VElement None None None None) None ()
       0 None world4))) 0 =
     [\<lparr>kind = Effect_REMOVE, host = 0, flush = ClearTextContent\<rparr>]"
  using no_children_always_queues_remove [of "VElement None None None None" quiet_env 0 None "()" 0 None world4]
  by (simp add: effect_def world4_def)

section \<open>The trim loop of the keyed reconciler\<close>

lemma at_in_range: "0 \<le> i \<Longrightarrow> i < int (length xs) \<Longrightarrow> at xs i = Some (xs ! nat i)"
  by (simp add: at_def)

lemma trim_loop_step:
  assumes "0 \<le> oldHead c" "oldTail c < int (length oldVNodeChildren)"
    and "0 \<le> newHead c" "newTail c < int (length newVNodeChildren)"
  shows "trim_loop el effects0 oldVNodeChildren newVNodeChildren c w =
     (if oldHead c \<le> oldTail c \<and> newHead c \<le> newTail c then
        (let oldTailVNode = oldVNodeChildren ! nat (oldTail c);
             newTailVNode = newVNodeChildren ! nat (newTail c);
             oldHeadVNode = oldVNodeChildren ! nat (oldHead c);
             newHeadVNode = newVNodeChildren ! nat (newHead c)
         in if key_of oldTailVNode = key_of newTailVNode then
              trim_loop el effects0 oldVNodeChildren newVNodeChildren
                (c\<lparr>oldTail := oldTail c - 1, newTail := newTail c - 1\<rparr>) w
            else if key_of oldHeadVNode = key_of newHeadVNode then
              trim_loop el effects0 oldVNodeChildren newVNodeChildren
                (c\<lparr>oldHead := oldHead c + 1, newHead := newHead c + 1\<rparr>) w
            else if key_of oldHeadVNode = key_of newTailVNode then
              trim_loop el effects0 oldVNodeChildren newVNodeChildren
                (c\<lparr>oldHead := oldHead c + 1, newTail := newTail c - 1\<rparr>)
                (queued effects0 [\<lparr>kind = Effect_CREATE, host = el,
                   flush = InsertAfterItem (item w el (oldHead c)) (newTail c)\<rparr>] w)
            else if key_of oldTailVNode = key_of newHeadVNode then
              trim_loop el effects0 oldVNodeChildren newVNodeChildren
                (c\<lparr>oldTail := oldTail c - 1, newHead := newHead c + 1\<rparr>)
                (queued effects0 [\<lparr>kind = Effect_CREATE, host = el,
                   flush = InsertBeforeItem (item w el (oldTail c)) (newHead c)\<rparr>] w)
            else Some (c, w))
      else Some (c, w))"
proof (cases "oldHead c \<le> oldTail c \<and> newHead c \<le> newTail c")
  case False
  have "trim_loop el effects0 oldVNodeChildren newVNodeChildren c w = Some (c, w)"
    by (subst trim_loop.simps) (simp add: False)
  then show ?thesis by (simp add: False)
next
  case True
  with assms have
    "at oldVNodeChildren (oldTail c) = Some (oldVNodeChildren ! nat (oldTail c))"
    "at newVNodeChildren (newTail c) = Some (newVNodeChildren ! nat (newTail c))"
    "at oldVNodeChildren (oldHead c) = Some (oldVNodeChildren ! nat (oldHead c))"
    "at newVNodeChildren (newHead c) = Some (newVNodeChildren ! nat (newHead c))"
    by (simp_all add: at_def)
  with True show ?thesis
    by (subst trim_loop.simps) (simp add: Let_def effect_queued)
qed

lemma trim_loop_post:
  assumes "0 \<le> oldHead c" "oldTail c < int (length oldVNodeChildren)"
    and "0 \<le> newHead c" "newTail c < int (length newVNodeChildren)"
  shows "\<exists>c' es. trim_loop el effects0 oldVNodeChildren newVNodeChildren c w = Some (c', queued effects0 es w)
     \<and> oldHead c \<le> oldHead c' \<and> oldTail c' \<le> oldTail c
     \<and> newHead c \<le> newHead c' \<and> newTail c' \<le> newTail c
     \<and> list_all (is_move w el) es
     \<and> trim_exit oldVNodeChildren newVNodeChildren c'"
  using assms
proof (induction "nat (oldTail c - oldHead c + 1) + nat (newTail c - newHead c + 1)"
    arbitrary: c w rule: less_induct)
  case less
  note step = trim_loop_step [OF less.prems, of el effects0 w]
  have rec: "\<exists>c' es. trim_loop el effects0 oldVNodeChildren newVNodeChildren c w = Some (c', queued effects0 es w)
     \<and> oldHead c \<le> oldHead c' \<and> oldTail c' \<le> oldTail c
     \<and> newHead c \<le> newHead c' \<and> newTail c' \<le> newTail c
     \<and> list_all (is_move w el) es
     \<and> trim_exit oldVNodeChildren newVNodeChildren c'"
    if eq: "trim_loop el effects0 oldVNodeChildren newVNodeChildren c w =
            trim_loop el effects0 oldVNodeChildren newVNodeChildren c1 (queued effects0 es1 w)"
      and m: "nat (oldTail c1 - oldHead c1 + 1) + nat (newTail c1 - newHead c1 + 1)
            < nat (oldTail c - oldHead c + 1) + nat (newTail c - newHead c + 1)"
      and b: "oldHead c \<le> oldHead c1" "oldTail c1 \<le> oldTail c"
             "newHead c \<le> newHead c1" "newTail c1 \<le> newTail c"
      and mv: "list_all (is_move w el) es1"
    for c1 es1
  proof -
    from b less.prems have b1: "0 \<le> oldHead c1" "oldTail c1 < int (length oldVNodeChildren)"
      "0 \<le> newHead c1" "newTail c1 < int (length newVNodeChildren)" by simp_all
    from less.hyps [OF m b1, of "queued effects0 es1 w"] obtain c' es where
      r: "trim_loop el effects0 oldVNodeChildren newVNodeChildren c1 (queued effects0 es1 w)
            = Some (c', queued effects0 es (queued effects0 es1 w))"
      and b': "oldHead c1 \<le> oldHead c'" "oldTail c' \<le> oldTail c1"
              "newHead c1 \<le> newHead c'" "newTail c' \<le> newTail c1"
      and mv': "list_all (is_move (queued effects0 es1 w) el) es"
      and ex: "trim_exit oldVNodeChildren newVNodeChildren c'"
      by blast
    show ?thesis
      apply (rule exI [of _ c'])
      apply (rule exI [of _ "es1 @ es"])
      using eq r b b' mv mv' ex by simp
  qed
  show ?case
  proof (cases "oldHead c \<le> oldTail c \<and> newHead c \<le> newTail c")
    case False
    have "trim_loop el effects0 oldVNodeChildren newVNodeChildren c w = Some (c, queued effects0 [] w)"
      by (simp add: step False)
    moreover from False have "trim_exit oldVNodeChildren newVNodeChildren c"
      by (auto simp: trim_exit_def)
    ultimately show ?thesis
      by (intro exI [of _ c] exI [of _ "[]"]) simp
  next
    case True
    let ?ot = "key_of (oldVNodeChildren ! nat (oldTail c))"
    let ?nt = "key_of (newVNodeChildren ! nat (newTail c))"
    let ?oh = "key_of (oldVNodeChildren ! nat (oldHead c))"
    let ?nh = "key_of (newVNodeChildren ! nat (newHead c))"
    consider (suffix) "?ot = ?nt"
      | (prefix) "?ot \<noteq> ?nt" "?oh = ?nh"
      | (right) "?ot \<noteq> ?nt" "?oh \<noteq> ?nh" "?oh = ?nt"
      | (left) "?ot \<noteq> ?nt" "?oh \<noteq> ?nh" "?oh \<noteq> ?nt" "?ot = ?nh"
      | (none) "?ot \<noteq> ?nt" "?oh \<noteq> ?nh" "?oh \<noteq> ?nt" "?ot \<noteq> ?nh"
      by blast
    then show ?thesis
    proof cases
      case suffix
      show ?thesis
      proof (rule rec [of "c\<lparr>oldTail := oldTail c - 1, newTail := newTail c - 1\<rparr>" "[]"])
        show "nat (oldTail (c\<lparr>oldTail := oldTail c - 1, newTail := newTail c - 1\<rparr>)
                - oldHead (c\<lparr>oldTail := oldTail c - 1, newTail := newTail c - 1\<rparr>) + 1)
            + nat (newTail (c\<lparr>oldTail := oldTail c - 1, newTail := newTail c - 1\<rparr>)
                - newHead (c\<lparr>oldTail := oldTail c - 1, newTail := newTail c - 1\<rparr>) + 1)
            < nat (oldTail c - oldHead c + 1) + nat (newTail c - newHead c + 1)"
          using True by simp arith
      qed (use True suffix step in \<open>simp_all add: Let_def\<close>)
    next
      case prefix
      show ?thesis
      proof (rule rec [of "c\<lparr>oldHead := oldHead c + 1, newHead := newHead c + 1\<rparr>" "[]"])
        show "nat (oldTail (c\<lparr>oldHead := oldHead c + 1, newHead := newHead c + 1\<rparr>)
                - oldHead (c\<lparr>oldHead := oldHead c + 1, newHead := newHead c + 1\<rparr>) + 1)
            + nat (newTail (c\<lparr>oldHead := oldHead c + 1, newHead := newHead c + 1\<rparr>)
                - newHead (c\<lparr>oldHead := oldHead c + 1, newHead := newHead c + 1\<rparr>) + 1)
            < nat (oldTail c - oldHead c + 1) + nat (newTail c - newHead c + 1)"
          using True by simp arith
      qed (use True prefix step in \<open>simp_all add: Let_def\<close>)
    next
      case right
      show ?thesis
      proof (rule rec [of "c\<lparr>oldHead := oldHead c + 1, newTail := newTail c - 1\<rparr>"
              "[\<lparr>kind = Effect_CREATE, host = el,
                 flush = InsertAfterItem (item w el (oldHead c)) (newTail c)\<rparr>]"])
        show "nat (oldTail (c\<lparr>oldHead := oldHead c + 1, newTail := newTail c - 1\<rparr>)
                - oldHead (c\<lparr>oldHead := oldHead c + 1, newTail := newTail c - 1\<rparr>) + 1)
            + nat (newTail (c\<lparr>oldHead := oldHead c + 1, newTail := newTail c - 1\<rparr>)
                - newHead (c\<lparr>oldHead := oldHead c + 1, newTail := newTail c - 1\<rparr>) + 1)
            < nat (oldTail c - oldHead c + 1) + nat (newTail c - newHead c + 1)"
          using True by simp arith
        show "list_all (is_move w el) [\<lparr>kind = Effect_CREATE, host = el,
                 flush = InsertAfterItem (item w el (oldHead c)) (newTail c)\<rparr>]"
          by (auto simp: is_move_def)
      qed (use True right step in \<open>simp_all add: Let_def effect_queued\<close>)
    next
      case left
      show ?thesis
      proof (rule rec [of "c\<lparr>oldTail := oldTail c - 1, newHead := newHead c + 1\<rparr>"
              "[\<lparr>kind = Effect_CREATE, host = el,
                 flush = InsertBeforeItem (item w el (oldTail c)) (newHead c)\<rparr>]"])
        show "nat (oldTail (c\<lparr>oldTail := oldTail c - 1, newHead := newHead c + 1\<rparr>)
                - oldHead (c\<lparr>oldTail := oldTail c - 1, newHead := newHead c + 1\<rparr>) + 1)
            + nat (newTail (c\<lparr>oldTail := oldTail c - 1, newHead := newHead c + 1\<rparr>)
                - newHead (c\<lparr>oldTail := oldTail c - 1, newHead := newHead c + 1\<rparr>) + 1)
            < nat (oldTail c - oldHead c + 1) + nat (newTail c - newHead c + 1)"
          using True by simp arith
        show "list_all (is_move w el) [\<lparr>kind = Effect_CREATE, host = el,
                 flush = InsertBeforeItem (item w el (oldTail c)) (newHead c)\<rparr>]"
          by (auto simp: is_move_def)
      qed (use True left step in \<open>simp_all add: Let_def effect_queued\<close>)
    next
      case none
      then have "trim_loop el effects0 oldVNodeChildren newVNodeChildren c w = Some (c, queued effects0 [] w)"
        using step True by (simp add: Let_def)
      moreover from none have "trim_exit oldVNodeChildren newVNodeChildren c"
        by (simp add: trim_exit_def)
      ultimately show ?thesis
        by (intro exI [of _ c] exI [of _ "[]"]) simp
    qed
  qed
qed


text \<open>Claim C4. In the trim loop of the keyed reconciler, while both index ranges are
  not empty, the key comparisons are made in the order suffix, prefix, right move, left
  move: a suffix or a prefix match only moves the cursors and queues nothing; a right or a
  left move queues exactly one effect of kind CREATE that reinserts the host child the
  parent already has; and the loop ends, at cursors where a range is empty or none of
  the four comparisons succeeds, having queued move effects only.\<close>

theorem trim_loop_fixed_order:
  assumes "0 \<le> oldHead c" "oldTail c < int (length oldVNodeChildren)"
    and "0 \<le> newHead c" "newTail c < int (length newVNodeChildren)"
  shows "trim_loop el effects0 oldVNodeChildren newVNodeChildren c w =
     (if oldHead c \<le> oldTail c \<and> newHead c \<le> newTail c then
        (let oldTailVNode = oldVNodeChildren ! nat (oldTail c);
             newTailVNode = newVNodeChildren ! nat (newTail c);
             oldHeadVNode = oldVNodeChildren ! nat (oldHead c);
             newHeadVNode = newVNodeChildren ! nat (newHead c)
         in if key_of oldTailVNode = key_of newTailVNode then
              trim_loop el effects0 oldVNodeChildren newVNodeChildren
                (c\<lparr>oldTail := oldTail c - 1, newTail := newTail c - 1\<rparr>) w
            else if key_of oldHeadVNode = key_of newHeadVNode then
              trim_loop el effects0 oldVNodeChildren newVNodeChildren
                (c\<lparr>oldHead := oldHead c + 1, newHead := newHead c + 1\<rparr>) w
            else if key_of oldHeadVNode = key_of newTailVNode then
              trim_loop el effects0 oldVNodeChildren newVNodeChildren
                (c\<lparr>oldHead := oldHead c + 1, newTail := newTail c - 1\<rparr>)
                (queued effects0 [\<lparr>kind = Effect_CREATE, host = el,
                   flush = InsertAfterItem (item w el (oldHead c)) (newTail c)\<rparr>] w)
            else if key_of oldTailVNode = key_of newHeadVNode then
              trim_loop el effects0 oldVNodeChildren newVNodeChildren
                (c\<lparr>oldTail := oldTail c - 1, newHead := newHead c + 1\<rparr>)
                (queued effects0 [\<lparr>kind = Effect_CREATE, host = el,
                   flush = InsertBeforeItem (item w el (oldTail c)) (newHead c)\<rparr>] w)
            else Some (c, w))
      else Some (c, w))
   \<and> (\<exists>c' es. trim_loop el effects0 oldVNodeChildren newVNodeChildren c w =
                  Some (c', queued effects0 es w)
         \<and> list_all (is_move w el) es
         \<and> trim_exit oldVNodeChildren newVNodeChildren c')"
proof
  show "trim_loop el effects0 oldVNodeChildren newVNodeChildren c w =
     (if oldHead c \<le> oldTail c \<and> newHead c \<le> newTail c then
        (let oldTailVNode = oldVNodeChildren ! nat (oldTail c);
             newTailVNode = newVNodeChildren ! nat (newTail c);
             oldHeadVNode = oldVNodeChildren ! nat (oldHead c);
             newHeadVNode = newVNodeChildren ! nat (newHead c)
         in if key_of oldTailVNode = key_of newTailVNode then
              trim_loop el effects0 oldVNodeChildren newVNodeChildren
                (c\<lparr>oldTail := oldTail c - 1, newTail := newTail c - 1\<rparr>) w
            else if key_of oldHeadVNode = key_of newHeadVNode then
              trim_loop el effects0 oldVNodeChildren newVNodeChildren
                (c\<lparr>oldHead := oldHead c + 1, newHead := newHead c + 1\<rparr>) w
            else if key_of oldHeadVNode = key_of newTailVNode then
              trim_loop el effects0 oldVNodeChildren newVNodeChildren
                (c\<lparr>oldHead := oldHead c + 1, newTail := newTail c - 1\<rparr>)
                (queued effects0 [\<lparr>kind = Effect_CREATE, host = el,
                   flush = InsertAfterItem (item w el (oldHead c)) (newTail c)\<rparr>] w)
            else if key_of oldTailVNode = key_of newHeadVNode then
              trim_loop el effects0 oldVNodeChildren newVNodeChildren
                (c\<lparr>oldTail := oldTail c - 1, newHead := newHead c + 1\<rparr>)
                (queued effects0 [\<lparr>kind = Effect_CREATE, host = el,
                   flush = InsertBeforeItem (item w el (oldTail c)) (newHead c)\<rparr>] w)
            else Some (c, w))
      else Some (c, w))"
    by (rule trim_loop_step [OF assms])
  show "\<exists>c' es. trim_loop el effects0 oldVNodeChildren newVNodeChildren c w =
                  Some (c', queued effects0 es w)
         \<and> list_all (is_move w el) es
         \<and> trim_exit oldVNodeChildren newVNodeChildren c'"
    using trim_loop_post [OF assms, of el effects0 w] by blast
qed

text \<open>For old keys a, b, c, X and new keys X, a, b, c the loop makes one left move (of
  the host child at index 3, to index 0) and then three suffix matches.\<close>

theorem trim_loop_fixed_order_witness:
  "trim_loop 0 0
     [keyed_child ''a'', keyed_child ''b'', keyed_child ''c'', keyed_child ''X'']
     [keyed_child ''X'', keyed_child ''a'', keyed_child ''b'', keyed_child ''c'']
     \<lparr>oldHead = 0, newHead = 0, oldTail = 3, newTail = 3\<rparr> world4 =
   Some (\<lparr>oldHead = 0, newHead = 1, oldTail = - 1, newTail = 0\<rparr>,
         queued 0 [\<lparr>kind = Effect_CREATE, host = 0, flush = InsertBeforeItem (Some 4) 0\<rparr>] world4)"
proof -
  let ?old = "[keyed_child ''a'', keyed_child ''b'', keyed_child ''c'', keyed_child ''X'']"
  let ?new = "[keyed_child ''X'', keyed_child ''a'', keyed_child ''b'', keyed_child ''c'']"
  have k: "key_of (keyed_child s) = Some s" for s by (simp add: keyed_child_def)
  have i: "item world4 0 3 = Some 4" by (simp add: item_def at_def world4_def)
  note t = trim_loop_fixed_order [THEN conjunct1, of _ ?old ?new 0 0]
  show ?thesis
    apply (subst t; simp add: k Let_def i)
    apply (subst t; simp add: k Let_def)
    apply (subst t; simp add: k Let_def)
    apply (subst t; simp add: k Let_def)
    apply (subst t; simp add: k Let_def)
    done
qed

section \<open>Text children\<close>

lemma old_children_nonempty:
  "old_children oldVNode \<noteq> [] \<Longrightarrow>
     children_string oldVNode = Some (flatten (old_children_of oldVNode))"
  by (auto simp: old_children_def old_children_of_def children_string_def split: option.splits)

lemma old_children_truthy: "old_children oldVNode \<noteq> [] \<Longrightarrow> \<not> falsy (old_children_of oldVNode)"
  by (auto simp: old_children_def falsy_elements)

text \<open>Claim C8. On the TEXT_CHILDREN path the old and the new children are each
  flattened to one string, a list of strings being joined with no separator and a string
  being taken as it is; exactly one REPLACE effect, setting the text content of the host
  node to the new string, is queued if and only if the two strings differ, and nothing is
  queued when they are equal.\<close>

theorem text_children_replace_iff_differ:
  assumes "delta newVNode = None" and "children newVNode = Some c" and "\<not> falsy c"
    and "flag newVNode = Some ELEMENT_TEXT_CHILDREN" and "old_children oldVNode \<noteq> []"
  shows "useChildren [] E el newVNode oldVNode commit effects driver w =
      Some (getData newVNode oldVNode commit driver (Some el) (Some effects),
            queued effects
              (if flatten (old_children_of oldVNode) = flatten c then []
               else [\<lparr>kind = Effect_REPLACE, host = el,
                      flush = SetTextContent (Some (flatten c))\<rparr>]) w)
    \<and> flatten (ChildString s) = s
    \<and> flatten (ChildArray (map VText ss)) = concat ss"
proof (intro conjI)
  show "flatten (ChildString s) = s"
    by simp
  show "flatten (ChildArray (map VText ss)) = concat ss"
    by (simp add: join_def comp_def)
  show "useChildren [] E el newVNode oldVNode commit effects driver w =
      Some (getData newVNode oldVNode commit driver (Some el) (Some effects),
            queued effects
              (if flatten (old_children_of oldVNode) = flatten c then []
               else [\<lparr>kind = Effect_REPLACE, host = el,
                      flush = SetTextContent (Some (flatten c))\<rparr>]) w)"
  proof -
    from assms(2) have n: "children_string (Some newVNode) = Some (flatten c)"
      by (simp add: children_string_def)
    from assms(5) have o: "elements (old_children_of oldVNode) \<noteq> []"
      by (simp add: old_children_def)
    from assms show ?thesis
      by (simp add: useChildren_no_drivers reconcile_def text_path_def o
            old_children_truthy old_children_nonempty n effect_queued Let_def)
  qed
qed

theorem text_children_replace_iff_differ_witness:
  "arrays (snd (the (useChildren [] quiet_env 0
       (parent_of [VText ''a'', VText ''bc''] (Some ELEMENT_TEXT_CHILDREN))
       (Some (parent_of [VText ''ab'', VText ''c''] (Some ELEMENT_TEXT_CHILDREN)))
       () 0 None world4))) 0 = []
   \<and> arrays (snd (the (useChildren [] quiet_env 0
       (VElement (Some (ChildString ''abc'')) None (Some ELEMENT_TEXT_CHILDREN) None)
       (Some (parent_of [VText ''ab'', VText ''c''] (Some ELEMENT_TEXT_CHILDREN)))
       () 0 None world4))) 0 = []
   \<and> arrays (snd (the (useChildren [] quiet_env 0
       (VElement (Some (ChildString ''abd'')) None (Some ELEMENT_TEXT_CHILDREN) None)
       (Some (VElement (Some (ChildString ''abc'')) None (Some ELEMENT_TEXT_CHILDREN) None))
       () 0 None world4))) 0 =
     [\<lparr>kind = Effect_REPLACE, host = 0, flush = SetTextContent (Some ''abd'')\<rparr>]"
  using text_children_replace_iff_differ [of "parent_of [VText ''a'', VText ''bc''] (Some ELEMENT_TEXT_CHILDREN)"
      "ChildArray [VText ''a'', VText ''bc'']" "Some (parent_of [VText ''ab'', VText ''c''] (Some ELEMENT_TEXT_CHILDREN))"
      quiet_env 0 "()" 0 None world4 "[]" "[]"]
    text_children_replace_iff_differ [of "VElement (Some (ChildString ''abc'')) None (Some ELEMENT_TEXT_CHILDREN) None"
      "ChildString ''abc''" "Some (parent_of [VText ''ab'', VText ''c''] (Some ELEMENT_TEXT_CHILDREN))"
      quiet_env 0 "()" 0 None world4 "[]" "[]"]
    text_children_replace_iff_differ [of "VElement (Some (ChildString ''abd'')) None (Some ELEMENT_TEXT_CHILDREN) None"
      "ChildString ''abd''"
      "Some (VElement (Some (ChildString ''abc'')) None (Some ELEMENT_TEXT_CHILDREN) None)"
      quiet_env 0 "()" 0 None world4 "[]" "[]"]
  by (simp add: parent_of_def join_def world4_def)

section \<open>Closed forms of the loops\<close>

lemma append_loop_closed:
  "append_loop el effects0 newVNodeChildren i w =
     queued effects0
       (map (\<lambda>v. \<lparr>kind = Effect_CREATE, host = el, flush = AppendCreated v\<rparr>) (drop i newVNodeChildren)) w"
proof (induction "length newVNodeChildren - i" arbitrary: i w)
  case 0
  then show ?case by (subst append_loop.simps) simp
next
  case (Suc n)
  then have lt: "i < length newVNodeChildren" and n: "n = length newVNodeChildren - Suc i"
    by simp_all
  from lt have d: "drop i newVNodeChildren = newVNodeChildren ! i # drop (Suc i) newVNodeChildren"
    by (simp add: Cons_nth_drop_Suc)
  show ?case
    by (subst append_loop.simps) (simp add: lt Suc.hyps(1) [OF n] d effect_queued)
qed

lemma insert_loop_closed:
  assumes "pool w el = Some p" "0 \<le> newHead c" "newTail c < int (length newVNodeChildren)"
  shows "insert_loop el effects0 newVNodeChildren c w =
     Some (queued effects0 (map (insert_effect el p newVNodeChildren) [newHead c..newTail c]) w)"
  using assms
proof (induction "nat (newTail c - newHead c + 1)" arbitrary: c w)
  case 0
  then have "\<not> newHead c \<le> newTail c" by simp
  then show ?case by (subst insert_loop.simps) simp
next
  case (Suc n)
  then have le: "newHead c \<le> newTail c" by simp
  let ?c = "c\<lparr>newHead := newHead c + 1\<rparr>"
  let ?w = "queued effects0 [insert_effect el p newVNodeChildren (newHead c)] w"
  have n: "n = nat (newTail ?c - newHead ?c + 1)" using Suc.hyps(2) by simp
  have ih: "insert_loop el effects0 newVNodeChildren ?c ?w =
     Some (queued effects0 (map (insert_effect el p newVNodeChildren) [newHead ?c..newTail ?c]) ?w)"
    by (rule Suc.hyps(1) [OF n]) (use Suc.prems in simp_all)
  have a: "at newVNodeChildren (newHead c) = Some (newVNodeChildren ! nat (newHead c))"
    using Suc.prems le by (simp add: at_def)
  show ?case
    apply (subst insert_loop.simps)
    using le Suc.prems(1) a ih
    by (simp add: effect_queued insert_effect_def upto_rec1 [OF le] Let_def)
qed

lemma store_removed_Cons:
  "store_removed el w ocs (i # removed) p =
     store_removed el w ocs removed (p(key_of (ocs ! nat i) := item w el i))"
  by (simp add: store_removed_def)

lemma store_removed_Nil [simp]: "store_removed el w ocs [] p = p"
  by (simp add: store_removed_def)

lemma store_removed_queued [simp]:
  "store_removed el (queued effects0 es w) = store_removed el w"
  by (simp add: store_removed_def fun_eq_iff)

lemma store_removed_with_pool [simp]:
  "store_removed el (with_pool n q w) = store_removed el w"
  by (simp add: store_removed_def fun_eq_iff)

lemma remove_effect_queued [simp]: "remove_effect el (queued effects0 es w) = remove_effect el w"
  by (simp add: remove_effect_def fun_eq_iff)

lemma remove_effect_with_pool [simp]: "remove_effect el (with_pool n q w) = remove_effect el w"
  by (simp add: remove_effect_def fun_eq_iff)

lemma remove_loop_closed:
  assumes "pool w el = Some p" "0 \<le> oldHead c" "oldTail c < int (length oldVNodeChildren)"
  shows "remove_loop el effects0 oldVNodeChildren c w =
     Some (queued effects0 (map (remove_effect el w) [oldHead c..oldTail c])
            (with_pool el (store_removed el w oldVNodeChildren [oldHead c..oldTail c] p) w))"
  using assms
proof (induction "nat (oldTail c - oldHead c + 1)" arbitrary: c w p)
  case 0
  then have "\<not> oldHead c \<le> oldTail c" by simp
  then show ?case using "0.prems" by (subst remove_loop.simps) simp
next
  case (Suc n)
  then have le: "oldHead c \<le> oldTail c" by simp
  let ?c = "c\<lparr>oldHead := oldHead c + 1\<rparr>"
  let ?p = "p(key_of (oldVNodeChildren ! nat (oldHead c)) := item w el (oldHead c))"
  let ?w = "queued effects0 [remove_effect el w (oldHead c)] (with_pool el ?p w)"
  have n: "n = nat (oldTail ?c - oldHead ?c + 1)" using Suc.hyps(2) by simp
  have ih: "remove_loop el effects0 oldVNodeChildren ?c ?w =
     Some (queued effects0 (map (remove_effect el ?w) [oldHead ?c..oldTail ?c])
            (with_pool el (store_removed el ?w oldVNodeChildren [oldHead ?c..oldTail ?c] ?p) ?w))"
    by (rule Suc.hyps(1) [OF n]) (use Suc.prems in simp_all)
  have a: "at oldVNodeChildren (oldHead c) = Some (oldVNodeChildren ! nat (oldHead c))"
    using Suc.prems le by (simp add: at_def)
  show ?case
    apply (subst remove_loop.simps)
    using le Suc.prems(1) a ih
    by (simp add: effect_queued pool_set_with_pool remove_effect_def [of el w "oldHead c"]
          upto_rec1 [OF le] store_removed_Cons with_pool_queued Let_def)
qed


lemma diff_loop_in_order:
  "diff_loop E el newVNode oldVNode commit driver ncs ocs n s =
     in_order (reconcile_child E el newVNode oldVNode commit driver ncs ocs) (rev [0..<n]) s"
proof (induction n arbitrary: s)
  case 0
  show ?case by simp
next
  case (Suc n)
  have e: "diff_loop E el newVNode oldVNode commit driver ncs ocs n =
      in_order (reconcile_child E el newVNode oldVNode commit driver ncs ocs) (rev [0..<n])"
    by (rule ext) (rule Suc.IH)
  show ?case by (simp add: e) (simp add: reconcile_child_def)
qed

lemma create_loop_fold:
  "create_loop E el effects0 ncs i w = fold (append_created E el effects0) (drop i ncs) w"
proof (induction "length ncs - i" arbitrary: i w)
  case 0
  then show ?case by (subst create_loop.simps) simp
next
  case (Suc n)
  then have lt: "i < length ncs" and n: "n = length ncs - Suc i"
    by simp_all
  from lt have d: "drop i ncs = ncs ! i # drop (Suc i) ncs"
    by (simp add: Cons_nth_drop_Suc)
  show ?case
    by (subst create_loop.simps)
       (simp add: lt Suc.hyps(1) [OF n] d effect_queued append_created_def Let_def)
qed

lemma remove_item_loop_closed:
  "remove_item_loop el effects0 commonLength i w =
     queued effects0 (map (remove_item_effect el) (rev [commonLength..i])) w"
proof (induction "nat (i - commonLength + 1)" arbitrary: i w)
  case 0
  then have "\<not> commonLength \<le> i" by simp
  then show ?case by (subst remove_item_loop.simps) simp
next
  case (Suc n)
  then have le: "commonLength \<le> i" and n: "n = nat (i - 1 - commonLength + 1)" by simp_all
  show ?case
    by (subst remove_item_loop.simps)
       (simp add: le Suc.hyps(1) [OF n] effect_queued upto_rec2 [OF le] remove_item_effect_def)
qed

lemma truthy_children:
  assumes "new_children newVNode = Some ncs" and "children newVNode \<noteq> Some (ChildString [])"
  obtains c where "children newVNode = Some c" and "elements c = ncs" and "\<not> falsy c"
proof -
  from assms(1) obtain c where c: "children newVNode = Some c" "elements c = ncs"
    by (auto simp add: new_children_def)
  with assms(2) have "\<not> falsy c" by (cases c) simp_all
  with c show ?thesis by (rule that)
qed

lemma reconcile_generic:
  assumes "delta newVNode = None" and "new_children newVNode = Some ncs"
    and "children newVNode \<noteq> Some (ChildString [])"
    and "flag newVNode \<noteq> Some ELEMENT_NO_CHILDREN"
    and "flag newVNode \<noteq> Some ELEMENT_KEYED_CHILDREN"
    and "flag newVNode \<noteq> Some ELEMENT_TEXT_CHILDREN"
    and "old_children oldVNode = ocs" and "ocs \<noteq> []"
  shows "reconcile E el newVNode oldVNode commit effects driver w =
     Option.bind
       (in_order (reconcile_child E el newVNode oldVNode commit driver ncs ocs)
          (rev [0..<min (length ocs) (length ncs)]) (Some effects, w))
       (\<lambda>s. Some (fst s,
          if length ocs < length ncs
          then fold (append_created E el effects) (drop (length ocs) ncs) (snd s)
          else queued effects
                 (map (remove_item_effect el) (rev [int (length ncs)..int (length ocs) - 1])) (snd s)))"
proof -
  from assms(2,3) obtain c where c: "children newVNode = Some c" "elements c = ncs" "\<not> falsy c"
    by (rule truthy_children)
  from assms(7,8) have o: "elements (old_children_of oldVNode) = ocs"
      "\<not> falsy (old_children_of oldVNode)"
    by (auto simp add: old_children_def falsy_elements)
  have "reconcile E el newVNode oldVNode commit effects driver w =
      generic_path E el newVNode oldVNode commit effects driver (old_children_of oldVNode) (Some c)
        (Some effects, w)"
    using assms c o by (simp add: reconcile_def)
  also have "\<dots> = Option.bind
       (in_order (reconcile_child E el newVNode oldVNode commit driver ncs ocs)
          (rev [0..<min (length ocs) (length ncs)]) (Some effects, w))
       (\<lambda>s. Some (fst s,
          if length ocs < length ncs
          then fold (append_created E el effects) (drop (length ocs) ncs) (snd s)
          else queued effects
                 (map (remove_item_effect el) (rev [int (length ncs)..int (length ocs) - 1])) (snd s)))"
    unfolding generic_path_def
    by (auto simp add: c o Let_def diff_loop_in_order create_loop_fold
          remove_item_loop_closed min_def intro!: Option.bind_cong)
  finally show ?thesis .
qed

lemma trim_loop_same:
  assumes "- 1 \<le> t" "t < int (length cs)"
  shows "trim_loop el effects0 cs cs \<lparr>oldHead = 0, newHead = 0, oldTail = t, newTail = t\<rparr> w =
     Some (\<lparr>oldHead = 0, newHead = 0, oldTail = - 1, newTail = - 1\<rparr>, w)"
  using assms
proof (induction "nat (t + 1)" arbitrary: t)
  case 0
  then have "t = - 1" by simp
  then show ?case by (subst trim_loop.simps) simp
next
  case (Suc n)
  then have t: "0 \<le> t" and n: "n = nat (t - 1 + 1)" by simp_all
  have ih: "trim_loop el effects0 cs cs \<lparr>oldHead = 0, newHead = 0, oldTail = t - 1, newTail = t - 1\<rparr> w =
     Some (\<lparr>oldHead = 0, newHead = 0, oldTail = - 1, newTail = - 1\<rparr>, w)"
    by (rule Suc.hyps(1) [OF n]) (use t Suc.prems in simp_all)
  show ?case
    by (subst trim_loop_step) (use t Suc.prems ih in \<open>simp_all add: Let_def\<close>)
qed



text \<open>Claim C7. On the generic path without keys, with both child lists present, the
  children at the indices below the common length \<open>min |old| |new|\<close> are reconciled
  recursively, one index after the other from the highest down to \<open>0\<close>; then, if the
  new list is longer, each extra new child is created and one CREATE effect appending it
  is queued, in increasing index order; if the old list is longer, one REMOVE effect for
  each extra old child is queued, in decreasing index order. The children are read by
  index, be they an array or a string.\<close>

theorem unkeyed_children_order:
  assumes "delta newVNode = None" and "new_children newVNode = Some ncs"
    and "children newVNode \<noteq> Some (ChildString [])"
    and "flag newVNode \<noteq> Some ELEMENT_NO_CHILDREN"
    and "flag newVNode \<noteq> Some ELEMENT_KEYED_CHILDREN"
    and "flag newVNode \<noteq> Some ELEMENT_TEXT_CHILDREN"
    and "old_children oldVNode = ocs" and "ocs \<noteq> []"
  shows "useChildren drivers E el newVNode oldVNode commit effects driver w =
     Option.bind
       (Option.bind
         (in_order (reconcile_child E el newVNode oldVNode commit driver ncs ocs)
            (rev [0..<min (length ocs) (length ncs)]) (Some effects, w))
         (\<lambda>s. Some (fst s,
            if length ocs < length ncs
            then fold (append_created E el effects) (drop (length ocs) ncs) (snd s)
            else queued effects
                   (map (remove_item_effect el) (rev [int (length ncs)..int (length ocs) - 1])) (snd s))))
       (finish E drivers el newVNode oldVNode commit driver el)"
  by (simp only: useChildren_def reconcile_generic [OF assms])

theorem unkeyed_children_order_witness:
  "arrays (snd (the (useChildren [] recording_env 0
       (parent_of [VText ''p'', VText ''q''] None)
       (Some (parent_of [VText ''a'', VText ''b'', VText ''c'', VText ''d''] None))
       () 0 (Some ()) world4))) 0 =
     [\<lparr>kind = Effect_UPDATE, host = 2, flush = SetTextContent (Some ''q'')\<rparr>,
      \<lparr>kind = Effect_UPDATE, host = 1, flush = SetTextContent (Some ''p'')\<rparr>,
      \<lparr>kind = Effect_REMOVE, host = 0, flush = RemoveItem 3\<rparr>,
      \<lparr>kind = Effect_REMOVE, host = 0, flush = RemoveItem 2\<rparr>]
   \<and> arrays (snd (the (useChildren [] recording_env 0
       (parent_of [VText ''p'', VText ''q'', VText ''r'', VText ''s''] None)
       (Some (parent_of [VText ''a'', VText ''b''] None))
       () 0 (Some ()) world4))) 0 =
     [\<lparr>kind = Effect_UPDATE, host = 2, flush = SetTextContent (Some ''q'')\<rparr>,
      \<lparr>kind = Effect_UPDATE, host = 1, flush = SetTextContent (Some ''p'')\<rparr>,
      \<lparr>kind = Effect_CREATE, host = 0, flush = AppendNode 102\<rparr>,
      \<lparr>kind = Effect_CREATE, host = 0, flush = AppendNode 103\<rparr>]"
proof -
  have u: "[0..<2] = [0, 1]" by (simp add: upt_rec)
  have r1: "rev [2::int..3] = [3, 2]" by (simp add: upto_rec1)
  have r2: "[2::int..1] = []" by simp
  show ?thesis
  using unkeyed_children_order [of "parent_of [VText ''p'', VText ''q''] None" "[VText ''p'', VText ''q'']"
      "Some (parent_of [VText ''a'', VText ''b'', VText ''c'', VText ''d''] None)"
      "[VText ''a'', VText ''b'', VText ''c'', VText ''d'']" "[]" recording_env 0 "()" 0 "Some ()" world4]
    unkeyed_children_order [of "parent_of [VText ''p'', VText ''q'', VText ''r'', VText ''s''] None"
      "[VText ''p'', VText ''q'', VText ''r'', VText ''s'']"
      "Some (parent_of [VText ''a'', VText ''b''] None)"
      "[VText ''a'', VText ''b'']" "[]" recording_env 0 "()" 0 "Some ()" world4]
  by (simp add: parent_of_def new_children_def finish_no_drivers u r1 r2 reconcile_child_def
        recording_env_def diff_def item_def at_def world4_def remove_item_effect_def
        append_created_def Let_def queued_def)
qed

lemma in_order_unchanged:
  "(\<And>x. x \<in> set xs \<Longrightarrow> f x s = Some s) \<Longrightarrow> in_order f xs s = Some s"
  by (induction xs) simp_all

text \<open>A node description that has a patch list, reconciled against itself: the patch
  is replayed and one effect is queued. So is one REMOVE effect when the node carries the
  flag NO_CHILDREN and has children, and when its children are absent.\<close>

theorem same_node_with_delta_counterexample:
  "arrays (snd (the (useChildren [] quiet_env 0
       (VElement (Some (ChildArray [])) None None (Some [(Delta_CREATE, 0)]))
       (Some (VElement (Some (ChildArray [])) None None (Some [(Delta_CREATE, 0)])))
       () 0 None world4))) 0 =
     [\<lparr>kind = Effect_CREATE, host = 0, flush = InsertCreatedBefore (Some []) 0 (Some 1)\<rparr>]
   \<and> arrays (snd (the (useChildren [] quiet_env 0
       (parent_of [VText ''a''] (Some ELEMENT_NO_CHILDREN))
       (Some (parent_of [VText ''a''] (Some ELEMENT_NO_CHILDREN)))
       () 0 None world4))) 0 =
     [\<lparr>kind = Effect_REMOVE, host = 0, flush = ClearTextContent\<rparr>]
   \<and> arrays (snd (the (useChildren [] quiet_env 0
       (VElement None None None None) (Some (VElement None None None None))
       () 0 None world4))) 0 =
     [\<lparr>kind = Effect_REMOVE, host = 0, flush = ClearTextContent\<rparr>]
   \<and> arrays world4 0 = []"
  by (simp add: useChildren_no_drivers reconcile_def effect_def item_def at_def world4_def
        new_children_def parent_of_def no_children_path_def old_children_of_def)

text \<open>Claim C1, amended. For every parent host node and every node description
  \<open>n\<close> that has no patch list, has its children present and does not carry the flag
  NO_CHILDREN beside children other than the empty string, reconciling \<open>n\<close> against
  itself queues no effect of its own, whatever the commit, the driver and the node factory
  are. With empty children, on the keyed path and on the text path the call returns the
  effect sequence it was given and leaves every effect array as it was; the only write is
  the lazy creation of the pool on the keyed path. On the generic path the call is the
  recursive reconciliation of each child against itself, from the last index down, and
  nothing else; when each of these returns the state it was given, so does the call.\<close>

theorem same_node_queues_nothing:
  assumes "delta n = None" and "children n = Some c"
    and "flag n \<noteq> Some ELEMENT_NO_CHILDREN \<or> c = ChildString []"
  shows "useChildren [] E el n (Some n) commit effects driver w =
     (if elements c = [] \<or> flag n = Some ELEMENT_KEYED_CHILDREN
           \<or> flag n = Some ELEMENT_TEXT_CHILDREN
      then Some (getData n (Some n) commit driver (Some el) (Some effects),
                 if flag n = Some ELEMENT_KEYED_CHILDREN \<and> elements c \<noteq> []
                 then with_pool el (pool_or_empty w el) w else w)
      else Option.bind
             (in_order (reconcile_child E el n (Some n) commit driver (elements c) (elements c))
                (rev [0..<length (elements c)]) (Some effects, w))
             (\<lambda>s. Some (getData n (Some n) commit driver (Some el) (fst s), snd s)))
   \<and> ((\<forall>i<length (elements c). \<forall>s.
          reconcile_child E el n (Some n) commit driver (elements c) (elements c) i s = Some s) \<longrightarrow>
        useChildren [] E el n (Some n) commit effects driver w =
          Some (getData n (Some n) commit driver (Some el) (Some effects),
                if flag n = Some ELEMENT_KEYED_CHILDREN \<and> elements c \<noteq> []
                then with_pool el (pool_or_empty w el) w else w))"
proof -
  let ?cs = "elements c"
  let ?quiet = "Some (Some effects, if flag n = Some ELEMENT_KEYED_CHILDREN \<and> ?cs \<noteq> []
           then with_pool el (pool_or_empty w el) w else w)"
  let ?children = "in_order (reconcile_child E el n (Some n) commit driver ?cs ?cs)
                (rev [0..<length ?cs]) (Some effects, w)"
  have oc: "old_children_of (Some n) = c" "old_children (Some n) = ?cs"
    using assms(2) by (simp_all add: old_children_of_def old_children_def)
  have nc: "new_children n = Some ?cs"
    using assms(2) by (simp add: new_children_def)
  have r: "reconcile E el n (Some n) commit effects driver w =
     (if ?cs = [] \<or> flag n = Some ELEMENT_KEYED_CHILDREN \<or> flag n = Some ELEMENT_TEXT_CHILDREN
      then ?quiet else ?children)"
  proof (cases "?cs = []")
    case True
    show ?thesis
    proof (cases "falsy c")
      case True
      then show ?thesis
        using assms(1,2) oc \<open>?cs = []\<close>
        by (simp add: reconcile_def no_children_path_def)
    next
      case False
      with assms(3) have "flag n \<noteq> Some ELEMENT_NO_CHILDREN" by auto
      then show ?thesis
        using assms(1,2) oc False \<open>?cs = []\<close>
        by (simp add: reconcile_def append_loop_closed)
    qed
  next
    case False
    note ne = False
    then have truthy: "\<not> falsy c" by (auto dest: falsy_elements)
    with assms(3) have no: "flag n \<noteq> Some ELEMENT_NO_CHILDREN" by auto
    from truthy have ns: "children n \<noteq> Some (ChildString [])"
      using assms(2) by auto
    consider (keyed) "flag n = Some ELEMENT_KEYED_CHILDREN"
      | (textual) "flag n = Some ELEMENT_TEXT_CHILDREN"
      | (generic) "flag n \<noteq> Some ELEMENT_KEYED_CHILDREN" "flag n \<noteq> Some ELEMENT_TEXT_CHILDREN"
      by blast
    then show ?thesis
    proof cases
      case keyed
      let ?w1 = "with_pool el (pool_or_empty w el) w"
      have w1: "(if pool w el = None then w\<lparr>pool := (pool w)(el := Some (\<lambda>k. None))\<rparr> else w) = ?w1"
        by (auto simp: with_pool_def pool_or_empty_def fun_upd_idem)
      have t: "trim_loop el effects ?cs ?cs
          \<lparr>oldHead = 0, newHead = 0, oldTail = int (length ?cs) - 1, newTail = int (length ?cs) - 1\<rparr> ?w1 =
          Some (\<lparr>oldHead = 0, newHead = 0, oldTail = - 1, newTail = - 1\<rparr>, ?w1)"
        by (rule trim_loop_same) simp_all
      have i: "insert_loop el effects ?cs \<lparr>oldHead = 0, newHead = 0, oldTail = - 1, newTail = - 1\<rparr> ?w1 = Some ?w1"
        by (subst insert_loop.simps) simp
      have "keyed_path el effects ?cs ?cs w = Some ?w1"
        unfolding keyed_path_def Let_def w1 by (simp add: t i)
      then show ?thesis
        using assms(1,2) oc ne keyed truthy by (simp add: reconcile_def)
    next
      case textual
      then show ?thesis
        using assms(1,2) oc ne truthy
        by (simp add: reconcile_def text_path_def children_string_def)
    next
      case generic
      show ?thesis
        using generic ne
        by (simp add: reconcile_generic [OF assms(1) nc ns no generic oc(2) ne])
    qed
  qed
  have first: "useChildren [] E el n (Some n) commit effects driver w =
     (if ?cs = [] \<or> flag n = Some ELEMENT_KEYED_CHILDREN \<or> flag n = Some ELEMENT_TEXT_CHILDREN
      then Some (getData n (Some n) commit driver (Some el) (Some effects),
                 if flag n = Some ELEMENT_KEYED_CHILDREN \<and> ?cs \<noteq> []
                 then with_pool el (pool_or_empty w el) w else w)
      else Option.bind ?children
             (\<lambda>s. Some (getData n (Some n) commit driver (Some el) (fst s), snd s)))"
    by (simp add: useChildren_no_drivers r)
  have second: "useChildren [] E el n (Some n) commit effects driver w =
          Some (getData n (Some n) commit driver (Some el) (Some effects),
                if flag n = Some ELEMENT_KEYED_CHILDREN \<and> ?cs \<noteq> []
                then with_pool el (pool_or_empty w el) w else w)"
    if same: "\<forall>i<length ?cs. \<forall>s.
          reconcile_child E el n (Some n) commit driver ?cs ?cs i s = Some s"
  proof -
    have "?children = Some (Some effects, w)"
      by (rule in_order_unchanged) (use same in simp)
    then show ?thesis
      by (simp add: first)
  qed
  from first second show ?thesis by blast
qed

theorem same_node_queues_nothing_witness:
  "useChildren [] quiet_env 0
     (parent_of [keyed_child ''a'', keyed_child ''b''] (Some ELEMENT_KEYED_CHILDREN))
     (Some (parent_of [keyed_child ''a'', keyed_child ''b''] (Some ELEMENT_KEYED_CHILDREN)))
     () 0 None world4 =
   Some (getData (parent_of [keyed_child ''a'', keyed_child ''b''] (Some ELEMENT_KEYED_CHILDREN))
           (Some (parent_of [keyed_child ''a'', keyed_child ''b''] (Some ELEMENT_KEYED_CHILDREN)))
           () None (Some 0) (Some 0),
         with_pool 0 (\<lambda>k. None) world4)
   \<and> useChildren [] quiet_env 0
     (parent_of [keyed_child ''a'', keyed_child ''b''] None)
     (Some (parent_of [keyed_child ''a'', keyed_child ''b''] None)) () 0 (Some ()) world4 =
   Some (getData (parent_of [keyed_child ''a'', keyed_child ''b''] None)
           (Some (parent_of [keyed_child ''a'', keyed_child ''b''] None)) () (Some ()) (Some 0) (Some 0),
         world4)"
  using same_node_queues_nothing [of "parent_of [keyed_child ''a'', keyed_child ''b''] (Some ELEMENT_KEYED_CHILDREN)"
      "ChildArray [keyed_child ''a'', keyed_child ''b'']" quiet_env 0 "()" 0 None world4]
    same_node_queues_nothing [of "parent_of [keyed_child ''a'', keyed_child ''b''] None"
      "ChildArray [keyed_child ''a'', keyed_child ''b'']" quiet_env 0 "()" 0 "Some ()" world4]
  by (simp add: parent_of_def reconcile_child_def quiet_env_def diff_def pool_or_empty_def
        world4_def)

section \<open>The keyed reconciler and the pool\<close>

lemma indexed_update:
  "indexed ocs m \<Longrightarrow> 0 \<le> i \<Longrightarrow> i < int (length ocs) \<Longrightarrow>
     indexed ocs (AList.update (key_of (ocs ! nat i)) i m)"
  by (induction m) (auto simp: indexed_def)

lemma indexed_subset: "indexed ocs m \<Longrightarrow> set m' \<subseteq> set m \<Longrightarrow> indexed ocs m'"
  by (auto simp: indexed_def list_all_iff)

lemma index_loop_post:
  assumes "0 \<le> oldHead c" "oldTail c < int (length ocs)" "indexed ocs m"
  shows "\<exists>c' m'. index_loop ocs c m = Some (c', m') \<and> newHead c' = newHead c \<and>
           newTail c' = newTail c \<and> indexed ocs m'"
  using assms
proof (induction "nat (oldTail c - oldHead c + 1)" arbitrary: c m)
  case 0
  then have "\<not> oldHead c \<le> oldTail c" by simp
  then show ?case using "0.prems" by (subst index_loop.simps) simp
next
  case (Suc n)
  then have le: "oldHead c \<le> oldTail c" by simp
  let ?c = "c\<lparr>oldHead := oldHead c + 1\<rparr>"
  let ?m = "AList.update (key_of (ocs ! nat (oldHead c))) (oldHead c) m"
  have n: "n = nat (oldTail ?c - oldHead ?c + 1)" using Suc.hyps(2) by simp
  have im: "indexed ocs ?m"
    using Suc.prems le by (intro indexed_update) simp_all
  have "\<exists>c' m'. index_loop ocs ?c ?m = Some (c', m') \<and> newHead c' = newHead ?c \<and>
           newTail c' = newTail ?c \<and> indexed ocs m'"
    by (rule Suc.hyps(1) [OF n]) (use Suc.prems im in simp_all)
  moreover have "at ocs (oldHead c) = Some (ocs ! nat (oldHead c))"
    using Suc.prems le by (simp add: at_def)
  ultimately show ?case
    by (subst index_loop.simps) (simp add: le)
qed

lemma set_delete_subset: "set (AList.delete k m) \<subseteq> set m"
  by (auto simp: AList.delete_eq)

lemma is_insertion_mono: "is_insertion el p ncs K e \<Longrightarrow> K' \<subseteq> K \<Longrightarrow> is_insertion el p ncs K' e"
  by (auto simp: is_insertion_def)

lemma walk_loop_post:
  assumes "pool w el = Some p" "0 \<le> newHead c" "newTail c < int (length ncs)"
  shows "\<exists>m' es. walk_loop el effects0 ncs c m w = Some (m', queued effects0 es w) \<and>
           set m' \<subseteq> set m \<and>
           list_all (\<lambda>e. is_move w el e \<or> is_insertion el p ncs (fst ` set m') e) es \<and>
           list_all (\<lambda>e. kind e = Effect_CREATE) es"
  using assms
proof (induction "nat (newTail c - newHead c + 1)" arbitrary: c m w)
  case 0
  then have "\<not> newHead c \<le> newTail c" by simp
  then have "walk_loop el effects0 ncs c m w = Some (m, queued effects0 [] w)"
    by (subst walk_loop.simps) simp
  then show ?case by (intro exI [of _ m] exI [of _ "[]"]) simp
next
  case (Suc n)
  then have le: "newHead c \<le> newTail c" by simp
  let ?c = "c\<lparr>newHead := newHead c + 1\<rparr>"
  let ?v = "ncs ! nat (newHead c)"
  have n: "n = nat (newTail ?c - newHead ?c + 1)" using Suc.hyps(2) by simp
  have a: "at ncs (newHead c) = Some ?v"
    using Suc.prems le by (simp add: at_def)
  have hr: "0 \<le> newHead c" "newHead c < int (length ncs)" using Suc.prems le by simp_all
  show ?case
  proof (cases "map_of m (key_of ?v)")
    case (Some oldIndex)
    let ?e = "\<lparr>kind = Effect_CREATE, host = el, flush = InsertBeforeItem (item w el oldIndex) (newHead c)\<rparr>"
    let ?w = "queued effects0 [?e] w"
    let ?m = "AList.delete (key_of ?v) m"
    have "\<exists>m' es. walk_loop el effects0 ncs ?c ?m ?w = Some (m', queued effects0 es ?w) \<and>
           set m' \<subseteq> set ?m \<and>
           list_all (\<lambda>e. is_move ?w el e \<or> is_insertion el p ncs (fst ` set m') e) es \<and>
           list_all (\<lambda>e. kind e = Effect_CREATE) es"
      by (rule Suc.hyps(1) [OF n]) (use Suc.prems in simp_all)
    then obtain m' es where
      r: "walk_loop el effects0 ncs ?c ?m ?w = Some (m', queued effects0 es ?w)"
      and sub: "set m' \<subseteq> set ?m"
      and cl: "list_all (\<lambda>e. is_move w el e \<or> is_insertion el p ncs (fst ` set m') e) es"
      and k: "list_all (\<lambda>e. kind e = Effect_CREATE) es"
      by auto
    have eq: "walk_loop el effects0 ncs c m w = Some (m', queued effects0 ([?e] @ es) w)"
      by (subst walk_loop.simps) (simp add: le a Some r effect_queued Let_def)
    have mv: "is_move w el ?e" by (auto simp: is_move_def)
    from sub have sub': "set m' \<subseteq> set m" using set_delete_subset by fast
    show ?thesis
      apply (rule exI [of _ m'])
      apply (rule exI [of _ "[?e] @ es"])
      using eq sub' cl k mv by simp
  next
    case None
    let ?e = "insert_effect el p ncs (newHead c)"
    let ?w = "queued effects0 [?e] w"
    have "\<exists>m' es. walk_loop el effects0 ncs ?c m ?w = Some (m', queued effects0 es ?w) \<and>
           set m' \<subseteq> set m \<and>
           list_all (\<lambda>e. is_move ?w el e \<or> is_insertion el p ncs (fst ` set m') e) es \<and>
           list_all (\<lambda>e. kind e = Effect_CREATE) es"
      by (rule Suc.hyps(1) [OF n]) (use Suc.prems in simp_all)
    then obtain m' es where
      r: "walk_loop el effects0 ncs ?c m ?w = Some (m', queued effects0 es ?w)"
      and sub: "set m' \<subseteq> set m"
      and cl: "list_all (\<lambda>e. is_move w el e \<or> is_insertion el p ncs (fst ` set m') e) es"
      and k: "list_all (\<lambda>e. kind e = Effect_CREATE) es"
      by auto
    have eq: "walk_loop el effects0 ncs c m w = Some (m', queued effects0 ([?e] @ es) w)"
      by (subst walk_loop.simps)
         (simp add: le a None r effect_queued Let_def Suc.prems(1)
            insert_effect_def [of el p ncs "newHead c", symmetric])
    from None have "key_of ?v \<notin> fst ` set m" by (simp add: map_of_eq_None_iff)
    with sub have "key_of ?v \<notin> fst ` set m'" by auto
    with hr have ins: "is_insertion el p ncs (fst ` set m') ?e"
      by (auto simp: is_insertion_def)
    have kc: "kind ?e = Effect_CREATE" by (simp add: insert_effect_def)
    show ?thesis
      apply (rule exI [of _ m'])
      apply (rule exI [of _ "[?e] @ es"])
      using eq sub cl k ins kc by simp
  qed
qed

lemma cleanup_loop_closed:
  assumes "pool w el = Some p" "indexed ocs m"
  shows "cleanup_loop el effects0 m w =
     Some (queued effects0 (map (remove_effect el w) (map snd m))
            (with_pool el (store_removed el w ocs (map snd m) p) w))"
  using assms
proof (induction m arbitrary: w p)
  case Nil
  then show ?case by simp
next
  case (Cons kv m)
  obtain k v where kv: "kv = (k, v)" by (cases kv)
  from Cons.prems(2) have k: "k = key_of (ocs ! nat v)" and im: "indexed ocs m"
    by (simp_all add: indexed_def kv)
  let ?p = "p(k := item w el v)"
  let ?w = "queued effects0 [remove_effect el w v] (with_pool el ?p w)"
  have pw: "pool ?w el = Some ?p" by simp
  have "cleanup_loop el effects0 m ?w =
     Some (queued effects0 (map (remove_effect el ?w) (map snd m))
            (with_pool el (store_removed el ?w ocs (map snd m) ?p) ?w))"
    by (rule Cons.IH [OF pw im])
  then show ?case
    using Cons.prems(1)
    by (simp add: kv effect_queued pool_set_with_pool remove_effect_def [of el w v]
          with_pool_queued Let_def store_removed_Cons k)
qed


lemma lazy_pool:
  "(if pool w el = None then w\<lparr>pool := (pool w)(el := Some (\<lambda>k. None))\<rparr> else w) =
     with_pool el (pool_or_empty w el) w"
  by (auto simp: with_pool_def pool_or_empty_def fun_upd_idem)

lemma is_move_kind: "is_move w el e \<Longrightarrow> kind e = Effect_CREATE"
  by (simp add: is_move_def)

lemma filter_remove_created:
  "list_all (\<lambda>e. kind e = Effect_CREATE) es \<Longrightarrow> filter (\<lambda>e. kind e = Effect_REMOVE) es = []"
  by (induction es) auto

lemma filter_remove_removes:
  "filter (\<lambda>e. kind e = Effect_REMOVE) (map (remove_effect el w) xs) = map (remove_effect el w) xs"
  by (induction xs) (auto simp: remove_effect_def)

lemma kind_insert_effect [simp]: "kind (insert_effect el p ncs i) = Effect_CREATE"
  by (simp add: insert_effect_def)

lemma kind_remove_effect [simp]: "kind (remove_effect el w i) = Effect_REMOVE"
  by (simp add: remove_effect_def)

lemma indexed_keys:
  "indexed ocs m \<Longrightarrow> (\<lambda>i. key_of (ocs ! nat i)) ` set (map snd m) = fst ` set m"
  by (force simp: indexed_def list_all_iff)

lemma indexed_range: "indexed ocs m \<Longrightarrow> list_all (\<lambda>i. 0 \<le> i \<and> i < int (length ocs)) (map snd m)"
  by (auto simp: indexed_def list_all_iff)

lemma keyed_path_closed:
  "\<exists>es removed.
     keyed_path el effects0 ocs ncs w =
       Some (queued effects0 es
              (with_pool el (store_removed el w ocs removed (pool_or_empty w el)) w))
     \<and> list_all (\<lambda>i. 0 \<le> i \<and> i < int (length ocs)) removed
     \<and> filter (\<lambda>e. kind e = Effect_REMOVE) es = map (remove_effect el w) removed
     \<and> list_all (\<lambda>e. is_move w el e
            \<or> is_insertion el (pool_or_empty w el) ncs ((\<lambda>i. key_of (ocs ! nat i)) ` set removed) e
            \<or> kind e = Effect_REMOVE) es"
proof -
  let ?p0 = "pool_or_empty w el"
  let ?w1 = "with_pool el ?p0 w"
  let ?c0 = "\<lparr>oldHead = 0, newHead = 0, oldTail = int (length ocs) - 1,
              newTail = int (length ncs) - 1\<rparr>"
  have "\<exists>c es. trim_loop el effects0 ocs ncs ?c0 ?w1 = Some (c, queued effects0 es ?w1)
     \<and> oldHead ?c0 \<le> oldHead c \<and> oldTail c \<le> oldTail ?c0
     \<and> newHead ?c0 \<le> newHead c \<and> newTail c \<le> newTail ?c0
     \<and> list_all (is_move ?w1 el) es
     \<and> trim_exit ocs ncs c"
    by (rule trim_loop_post) simp_all
  then obtain c est where
    t: "trim_loop el effects0 ocs ncs ?c0 ?w1 = Some (c, queued effects0 est ?w1)"
    and b: "0 \<le> oldHead c" "oldTail c < int (length ocs)" "0 \<le> newHead c"
           "newTail c < int (length ncs)"
    and mv: "list_all (is_move w el) est"
    by auto
  let ?w2 = "queued effects0 est ?w1"
  have pw2: "pool ?w2 el = Some ?p0" by simp
  from mv have kt: "list_all (\<lambda>e. kind e = Effect_CREATE) est"
    by (auto simp: list_all_iff is_move_kind)
  have kp: "keyed_path el effects0 ocs ncs w =
      (if oldHead c > oldTail c then insert_loop el effects0 ncs c ?w2
       else if newHead c > newTail c then remove_loop el effects0 ocs c ?w2
       else Option.bind (index_loop ocs c [])
              (\<lambda>(c', oldKeyMap). Option.bind (walk_loop el effects0 ncs c' oldKeyMap ?w2)
                 (\<lambda>(oldKeyMap', w3). cleanup_loop el effects0 oldKeyMap' w3)))"
    unfolding keyed_path_def Let_def lazy_pool by (simp add: t)
  consider (ins) "oldHead c > oldTail c"
    | (rem) "\<not> oldHead c > oldTail c" "newHead c > newTail c"
    | (gen) "\<not> oldHead c > oldTail c" "\<not> newHead c > newTail c"
    by blast
  then show ?thesis
  proof cases
    case ins
    let ?es = "map (insert_effect el ?p0 ncs) [newHead c..newTail c]"
    have "keyed_path el effects0 ocs ncs w = Some (queued effects0 ?es ?w2)"
      using ins by (simp add: kp insert_loop_closed [OF pw2 b(3,4)])
    then have r: "keyed_path el effects0 ocs ncs w =
        Some (queued effects0 (est @ ?es) (with_pool el (store_removed el w ocs [] ?p0) w))"
      by simp
    have ki: "list_all (\<lambda>e. kind e = Effect_CREATE) ?es"
      by (simp add: list_all_iff)
    have ii: "list_all (is_insertion el ?p0 ncs {}) ?es"
      unfolding list_all_iff is_insertion_def
    proof
      fix e assume "e \<in> set ?es"
      then obtain i where "e = insert_effect el ?p0 ncs i" "newHead c \<le> i" "i \<le> newTail c"
        by auto
      with b show "\<exists>i. 0 \<le> i \<and> i < int (length ncs) \<and> e = insert_effect el ?p0 ncs i \<and>
          key_of (ncs ! nat i) \<notin> {}"
        by (intro exI [of _ i]) simp
    qed
    show ?thesis
      apply (rule exI [of _ "est @ ?es"])
      apply (rule exI [of _ "[]"])
      using r kt ki mv ii
      by (auto simp: filter_remove_created list_all_iff)
  next
    case rem
    let ?rm = "[oldHead c..oldTail c]"
    have "keyed_path el effects0 ocs ncs w =
        Some (queued effects0 (map (remove_effect el ?w2) ?rm)
               (with_pool el (store_removed el ?w2 ocs ?rm ?p0) ?w2))"
      using rem by (simp add: kp remove_loop_closed [OF pw2 b(1,2)])
    then have r: "keyed_path el effects0 ocs ncs w =
        Some (queued effects0 (est @ map (remove_effect el w) ?rm)
               (with_pool el (store_removed el w ocs ?rm ?p0) w))"
      by (simp add: with_pool_queued)
    have rg: "list_all (\<lambda>i. 0 \<le> i \<and> i < int (length ocs)) ?rm"
      using b by (auto simp: list_all_iff)
    show ?thesis
      apply (rule exI [of _ "est @ map (remove_effect el w) ?rm"])
      apply (rule exI [of _ ?rm])
      using r kt mv rg
      by (auto simp: filter_remove_created filter_remove_removes list_all_iff)
  next
    case gen
    have "\<exists>c' m. index_loop ocs c [] = Some (c', m) \<and> newHead c' = newHead c \<and>
           newTail c' = newTail c \<and> indexed ocs m"
      by (rule index_loop_post [OF b(1,2)]) (simp add: indexed_def)
    then obtain c' m where
      ix: "index_loop ocs c [] = Some (c', m)" and c': "newHead c' = newHead c" "newTail c' = newTail c"
      and im: "indexed ocs m"
      by blast
    have "\<exists>m' es. walk_loop el effects0 ncs c' m ?w2 = Some (m', queued effects0 es ?w2) \<and>
           set m' \<subseteq> set m \<and>
           list_all (\<lambda>e. is_move ?w2 el e \<or> is_insertion el ?p0 ncs (fst ` set m') e) es \<and>
           list_all (\<lambda>e. kind e = Effect_CREATE) es"
      by (rule walk_loop_post [OF pw2]) (use b c' in simp_all)
    then obtain m' esw where
      wk: "walk_loop el effects0 ncs c' m ?w2 = Some (m', queued effects0 esw ?w2)"
      and sub: "set m' \<subseteq> set m"
      and cl: "list_all (\<lambda>e. is_move w el e \<or> is_insertion el ?p0 ncs (fst ` set m') e) esw"
      and kw: "list_all (\<lambda>e. kind e = Effect_CREATE) esw"
      by auto
    from im sub have im': "indexed ocs m'" by (rule indexed_subset)
    let ?w3 = "queued effects0 esw ?w2"
    let ?rm = "map snd m'"
    have pw3: "pool ?w3 el = Some ?p0" by simp
    have "keyed_path el effects0 ocs ncs w = cleanup_loop el effects0 m' ?w3"
      using gen by (simp add: kp ix wk del: queued_queued)
    then have "keyed_path el effects0 ocs ncs w =
        Some (queued effects0 (map (remove_effect el ?w3) ?rm)
               (with_pool el (store_removed el ?w3 ocs ?rm ?p0) ?w3))"
      by (simp only: cleanup_loop_closed [OF pw3 im'])
    then have r: "keyed_path el effects0 ocs ncs w =
        Some (queued effects0 (est @ esw @ map (remove_effect el w) ?rm)
               (with_pool el (store_removed el w ocs ?rm ?p0) w))"
      by (simp add: with_pool_queued)
    have keys: "(\<lambda>i. key_of (ocs ! nat i)) ` set ?rm = fst ` set m'"
      by (rule indexed_keys [OF im'])
    have f: "filter (\<lambda>e. kind e = Effect_REMOVE) (est @ esw @ map (remove_effect el w) ?rm) =
        map (remove_effect el w) ?rm"
      using kt kw by (simp add: filter_remove_created filter_remove_removes)
    have la: "list_all (\<lambda>e. is_move w el e
            \<or> is_insertion el ?p0 ncs ((\<lambda>i. key_of (ocs ! nat i)) ` set ?rm) e
            \<or> kind e = Effect_REMOVE) (est @ esw @ map (remove_effect el w) ?rm)"
      unfolding keys using mv cl by (auto simp: list_all_iff)
    show ?thesis
      apply (rule exI [of _ "est @ esw @ map (remove_effect el w) ?rm"])
      apply (rule exI [of _ ?rm])
      using r f la indexed_range [OF im'] by simp
  qed
qed


lemma store_removed_other:
  "k \<notin> (\<lambda>i. key_of (ocs ! nat i)) ` set removed \<Longrightarrow> store_removed el w ocs removed p k = p k"
  by (induction removed arbitrary: p) (auto simp: store_removed_Cons)


lemma keyed_path_pool:
  "\<exists>es removed.
     keyed_path el effects0 ocs ncs w =
       Some (queued effects0 es
              (with_pool el (store_removed el w ocs removed (pool_or_empty w el)) w))
     \<and> filter (\<lambda>e. kind e = Effect_REMOVE) es = map (remove_effect el w) removed
     \<and> (\<forall>e\<in>set es. \<forall>cached v h. flush e = InsertCachedOrCreated cached v h \<longrightarrow>
           cached = pool_or_empty w el (key_of v) \<and>
           store_removed el w ocs removed (pool_or_empty w el) (key_of v) = cached)"
proof -
  let ?p0 = "pool_or_empty w el"
  obtain es removed where
    r: "keyed_path el effects0 ocs ncs w =
       Some (queued effects0 es (with_pool el (store_removed el w ocs removed ?p0) w))"
    and f: "filter (\<lambda>e. kind e = Effect_REMOVE) es = map (remove_effect el w) removed"
    and cl: "list_all (\<lambda>e. is_move w el e
            \<or> is_insertion el ?p0 ncs ((\<lambda>i. key_of (ocs ! nat i)) ` set removed) e
            \<or> kind e = Effect_REMOVE) es"
    using keyed_path_closed [of el effects0 ocs ncs w] by blast
  have "cached = ?p0 (key_of v) \<and> store_removed el w ocs removed ?p0 (key_of v) = cached"
    if e: "e \<in> set es" and fl: "flush e = InsertCachedOrCreated cached v h" for e cached v h
  proof -
    from cl e consider (mv) "is_move w el e"
      | (ins) "is_insertion el ?p0 ncs ((\<lambda>i. key_of (ocs ! nat i)) ` set removed) e"
      | (rm) "kind e = Effect_REMOVE"
      by (auto simp: list_all_iff)
    then show ?thesis
    proof cases
      case mv
      with fl show ?thesis by (auto simp: is_move_def)
    next
      case ins
      then obtain i where "e = insert_effect el ?p0 ncs i"
        and k: "key_of (ncs ! nat i) \<notin> (\<lambda>i. key_of (ocs ! nat i)) ` set removed"
        by (auto simp: is_insertion_def)
      with fl have "cached = ?p0 (key_of v)" and "v = ncs ! nat i"
        by (auto simp add: insert_effect_def)
      with k show ?thesis by (simp add: store_removed_other)
    next
      case rm
      with e have "e \<in> set (filter (\<lambda>e. kind e = Effect_REMOVE) es)" by simp
      with f fl show ?thesis by (auto simp: remove_effect_def)
    qed
  qed
  with r f show ?thesis by blast
qed

section \<open>Recycling\<close>

lemma key_of_keyed_child: "key_of (keyed_child s) = Some s"
  by (simp add: keyed_child_def)


lemma keyed_insert_c:
  "keyed_path 0 0
     [keyed_child ''a'', keyed_child ''b'', keyed_child ''d'']
     [keyed_child ''a'', keyed_child ''b'', keyed_child ''c'', keyed_child ''d''] world3 =
   Some (queued 0 [\<lparr>kind = Effect_CREATE, host = 0,
                    flush = InsertCachedOrCreated (Some 3) (keyed_child ''c'') 2\<rparr>] world3)"
  apply (simp add: keyed_path_def Let_def)
  apply (simp add: trim_loop.simps at_def key_of_keyed_child world3_def)
  apply (simp add: insert_loop.simps at_def key_of_keyed_child effect_queued queued_def Let_def)
  done




text \<open>Claim C10. A keyed pass changes the pool of the parent only by creating it, empty,
  when it is not set, and by the stores of the removals; the pools of other nodes are not
  touched. An insertion that holds a pooled node leaves the entry in place: after the pass
  the pool still maps the key to that node, and every insertion of the same key in a
  later pass holds the same node again.\<close>

theorem pool_entry_survives_reuse:
  assumes first: "keyed_path el effects1 ocs1 ncs1 w1 = Some w1'"
    and later: "pool w2 el = pool w1' el"
    and second: "keyed_path el effects2 ocs2 ncs2 w2 = Some w2'"
  shows "\<exists>removed es1 es2 p1.
       arrays w1' effects1 = arrays w1 effects1 @ es1
     \<and> filter (\<lambda>e. kind e = Effect_REMOVE) es1 = map (remove_effect el w1) removed
     \<and> pool w1' el = Some p1
     \<and> p1 = store_removed el w1 ocs1 removed (pool_or_empty w1 el)
     \<and> (\<forall>n. n \<noteq> el \<longrightarrow> pool w1' n = pool w1 n)
     \<and> arrays w2' effects2 = arrays w2 effects2 @ es2
     \<and> (\<forall>e\<in>set es1. \<forall>cached v h. flush e = InsertCachedOrCreated cached v h \<longrightarrow>
           p1 (key_of v) = cached \<and>
           (\<forall>e'\<in>set es2. \<forall>cached' v' h'. flush e' = InsertCachedOrCreated cached' v' h' \<longrightarrow>
              key_of v' = key_of v \<longrightarrow> cached' = cached))"
proof -
  obtain es1 removed where
    r1: "keyed_path el effects1 ocs1 ncs1 w1 =
       Some (queued effects1 es1
              (with_pool el (store_removed el w1 ocs1 removed (pool_or_empty w1 el)) w1))"
    and f1: "filter (\<lambda>e. kind e = Effect_REMOVE) es1 = map (remove_effect el w1) removed"
    and i1: "\<forall>e\<in>set es1. \<forall>cached v h. flush e = InsertCachedOrCreated cached v h \<longrightarrow>
           cached = pool_or_empty w1 el (key_of v) \<and>
           store_removed el w1 ocs1 removed (pool_or_empty w1 el) (key_of v) = cached"
    using keyed_path_pool [of el effects1 ocs1 ncs1 w1] by blast
  obtain es2 removed2 where
    r2: "keyed_path el effects2 ocs2 ncs2 w2 =
       Some (queued effects2 es2
              (with_pool el (store_removed el w2 ocs2 removed2 (pool_or_empty w2 el)) w2))"
    and i2: "\<forall>e\<in>set es2. \<forall>cached v h. flush e = InsertCachedOrCreated cached v h \<longrightarrow>
           cached = pool_or_empty w2 el (key_of v) \<and>
           store_removed el w2 ocs2 removed2 (pool_or_empty w2 el) (key_of v) = cached"
    using keyed_path_pool [of el effects2 ocs2 ncs2 w2] by blast
  let ?p1 = "store_removed el w1 ocs1 removed (pool_or_empty w1 el)"
  from first r1 have w1': "w1' = queued effects1 es1 (with_pool el ?p1 w1)" by simp
  from second r2 have w2':
    "w2' = queued effects2 es2
             (with_pool el (store_removed el w2 ocs2 removed2 (pool_or_empty w2 el)) w2)"
    by simp
  from later w1' have p2: "pool_or_empty w2 el = ?p1" by (simp add: pool_or_empty_def)
  have again: "p1k = cached \<and>
           (\<forall>e'\<in>set es2. \<forall>cached' v' h'. flush e' = InsertCachedOrCreated cached' v' h' \<longrightarrow>
              key_of v' = key_of v \<longrightarrow> cached' = cached)"
    if "e \<in> set es1" "flush e = InsertCachedOrCreated cached v h" "p1k = ?p1 (key_of v)"
    for e cached v h p1k
  proof -
    from that i1 have c: "?p1 (key_of v) = cached" by blast
    moreover have "cached' = cached"
      if "e' \<in> set es2" "flush e' = InsertCachedOrCreated cached' v' h'" "key_of v' = key_of v"
      for e' cached' v' h'
    proof -
      from that i2 have "cached' = pool_or_empty w2 el (key_of v')" by blast
      with that(3) c show ?thesis by (simp add: p2)
    qed
    ultimately show ?thesis using that(3) by blast
  qed
  show ?thesis
    apply (rule exI [of _ removed])
    apply (rule exI [of _ es1])
    apply (rule exI [of _ es2])
    apply (rule exI [of _ ?p1])
    using f1 again by (simp add: w1' w2')
qed

lemma keyed_insert_c_again:
  "keyed_path 0 1
     [keyed_child ''a'', keyed_child ''b'', keyed_child ''d'']
     [keyed_child ''a'', keyed_child ''c'', keyed_child ''b'', keyed_child ''d''] world3 =
   Some (queued 1 [\<lparr>kind = Effect_CREATE, host = 0,
                    flush = InsertCachedOrCreated (Some 3) (keyed_child ''c'') 1\<rparr>] world3)"
  apply (simp add: keyed_path_def Let_def)
  apply (simp add: trim_loop.simps at_def key_of_keyed_child world3_def)
  apply (simp add: insert_loop.simps at_def key_of_keyed_child effect_queued queued_def Let_def)
  done

theorem pool_entry_survives_reuse_witness:
  "keyed_path 0 0
     [keyed_child ''a'', keyed_child ''b'', keyed_child ''d'']
     [keyed_child ''a'', keyed_child ''b'', keyed_child ''c'', keyed_child ''d''] world3 =
   Some (queued 0 [\<lparr>kind = Effect_CREATE, host = 0,
                    flush = InsertCachedOrCreated (Some 3) (keyed_child ''c'') 2\<rparr>] world3)
   \<and> keyed_path 0 1
     [keyed_child ''a'', keyed_child ''b'', keyed_child ''d'']
     [keyed_child ''a'', keyed_child ''c'', keyed_child ''b'', keyed_child ''d''] world3 =
   Some (queued 1 [\<lparr>kind = Effect_CREATE, host = 0,
                    flush = InsertCachedOrCreated (Some 3) (keyed_child ''c'') 1\<rparr>] world3)"
proof -
  have later: "pool world3 0 =
      pool (queued 0 [\<lparr>kind = Effect_CREATE, host = 0,
                    flush = InsertCachedOrCreated (Some 3) (keyed_child ''c'') 2\<rparr>] world3) 0"
    by simp
  from pool_entry_survives_reuse [OF keyed_insert_c later keyed_insert_c_again]
    keyed_insert_c keyed_insert_c_again
  show ?thesis by simp
qed

section \<open>The delta replayer\<close>

lemma diff_respects:
  assumes "driver_respects R E commit" and "diff E commit driver child nv ov t = Some t'"
  shows "R t t'"
proof (cases driver)
  case None
  with assms(2) show ?thesis by (simp add: diff_def)
next
  case (Some d)
  with assms(2) have "call_driver E d child nv ov commit (fst t) None (snd t) = Some t'"
    by (simp add: diff_def)
  with assms(1) have "R (fst t, snd t) t'"
    unfolding driver_respects_def by blast
  then show ?thesis by simp
qed

lemma commit_respectsD:
  "commit_respects R E commit \<Longrightarrow> (\<And>t t'. work t = Some t' \<Longrightarrow> R t t') \<Longrightarrow>
     call_commit E commit work dat s = Some s' \<Longrightarrow> R s s'"
  unfolding commit_respects_def by blast








lemma queue_only_refl [simp]: "queue_only el effects0 s s"
  by (simp add: queue_only_def)

lemma queue_only_trans:
  "queue_only el effects0 s s' \<Longrightarrow> queue_only el effects0 s' s'' \<Longrightarrow> queue_only el effects0 s s''"
  by (auto simp: queue_only_def)

lemma queue_only_queued [simp]: "queue_only el effects0 (ev, w) (ev, queued effects0 es w)"
  by (simp add: queue_only_def)

lemma queue_only_queued_with_pool [simp]:
  "queue_only el effects0 (ev, w) (ev, queued effects0 es (with_pool n p w))"
  by (simp add: queue_only_def)

lemma queue_only_same_children: "queue_only el effects0 s s' \<Longrightarrow> same_children el s s'"
  by (simp add: queue_only_def same_children_def)

lemma driver_respects_mono:
  "driver_respects R E commit \<Longrightarrow> (\<And>s s'. R s s' \<Longrightarrow> R' s s') \<Longrightarrow> driver_respects R' E commit"
  unfolding driver_respects_def by blast

lemma in_order_rel:
  assumes step: "\<And>x s s'. f x s = Some s' \<Longrightarrow> R s s'"
    and refl: "\<And>s. R s s" and trans: "\<And>s s' s''. R s s' \<Longrightarrow> R s' s'' \<Longrightarrow> R s s''"
  shows "in_order f xs s = Some s' \<Longrightarrow> R s s'"
proof (induction xs arbitrary: s)
  case Nil
  then show ?case by (simp add: refl)
next
  case (Cons x xs)
  then obtain s1 where "f x s = Some s1" "in_order f xs s1 = Some s'"
    by (auto simp: bind_eq_Some_conv)
  with Cons.IH step trans show ?case by blast
qed

lemma fold_append_created_queue_only:
  assumes "factory_respects (queue_only el effects0) E"
  shows "queue_only el effects0 (ev, w) (ev, fold (append_created E el effects0) vs w)"
proof (induction vs arbitrary: w)
  case Nil
  show ?case by simp
next
  case (Cons v vs)
  from assms have "queue_only el effects0 (ev, w) (ev, snd (createElement E v w))"
    by (simp add: factory_respects_def)
  then have "queue_only el effects0 (ev, w) (ev, append_created E el effects0 v w)"
    by (auto simp: append_created_def Let_def queue_only_def)
  with Cons.IH [of "append_created E el effects0 v w"] show ?case
    by (auto intro: queue_only_trans)
qed

lemma reconcile_child_queue_only:
  assumes "driver_respects (queue_only el effects0) E commit"
    and "commit_respects (queue_only el effects0) E commit"
    and "reconcile_child E el' newVNode oldVNode commit driver ncs ocs i s = Some s'"
  shows "queue_only el effects0 s s'"
  using assms(3) unfolding reconcile_child_def
  by (rule commit_respectsD [OF assms(2), rotated]) (rule diff_respects [OF assms(1)])

lemma delta_loop_queue_only:
  assumes d: "driver_respects (queue_only el effects0) E commit"
    and c: "commit_respects (queue_only el effects0) E commit"
  shows "delta_loop E el newVNode oldVNode commit effects0 driver ds s = Some s' \<Longrightarrow>
     queue_only el effects0 s s'"
proof (induction ds arbitrary: s)
  case Nil
  then show ?case by simp
next
  case (Cons patch ds)
  obtain deltaType pos where patch: "patch = (deltaType, pos)" by (cases patch)
  let ?child = "item (snd s) el (int pos)"
  show ?case
  proof (cases deltaType)
    case Delta_CREATE
    let ?s1 = "(fst s, queued effects0 [\<lparr>kind = Effect_CREATE, host = el,
        flush = InsertCreatedBefore (new_children newVNode) pos ?child\<rparr>] (snd s))"
    from Cons.prems have "delta_loop E el newVNode oldVNode commit effects0 driver ds ?s1 = Some s'"
      by (simp add: patch Delta_CREATE effect_queued Let_def)
    then have "queue_only el effects0 ?s1 s'" by (rule Cons.IH)
    moreover have "queue_only el effects0 s ?s1" by (cases s) simp
    ultimately show ?thesis by (blast intro: queue_only_trans)
  next
    case Delta_UPDATE
    let ?work = "\<lambda>t. case new_children newVNode of
                    None \<Rightarrow> None
                  | Some ncs \<Rightarrow> diff E commit driver ?child (at ncs (int pos))
                      (at (old_children oldVNode) (int pos)) t"
    from Cons.prems obtain s2 where
      s2: "call_commit E commit ?work
             (getData newVNode oldVNode commit driver ?child (fst s)) s = Some s2"
      and rest: "delta_loop E el newVNode oldVNode commit effects0 driver ds s2 = Some s'"
      by (auto simp: patch Delta_UPDATE Let_def bind_eq_Some_conv)
    have w: "queue_only el effects0 t t'" if "?work t = Some t'" for t t'
      using that diff_respects [OF d] by (auto split: option.splits)
    from commit_respectsD [OF c w s2] have "queue_only el effects0 s s2" .
    moreover from rest have "queue_only el effects0 s2 s'" by (rule Cons.IH)
    ultimately show ?thesis by (blast intro: queue_only_trans)
  next
    case Delta_REMOVE
    let ?s1 = "(fst s, queued effects0 [\<lparr>kind = Effect_REMOVE, host = el,
        flush = RemoveChild ?child\<rparr>] (snd s))"
    from Cons.prems have "delta_loop E el newVNode oldVNode commit effects0 driver ds ?s1 = Some s'"
      by (simp add: patch Delta_REMOVE effect_queued Let_def)
    then have "queue_only el effects0 ?s1 s'" by (rule Cons.IH)
    moreover have "queue_only el effects0 s ?s1" by (cases s) simp
    ultimately show ?thesis by (blast intro: queue_only_trans)
  qed
qed

lemma reconcile_queue_only:
  assumes d: "driver_respects (queue_only el effects) E commit"
    and c: "commit_respects (queue_only el effects) E commit"
    and f: "factory_respects (queue_only el effects) E"
    and r: "reconcile E el newVNode oldVNode commit effects driver w = Some s"
  shows "queue_only el effects (Some effects, w) s"
proof (cases "delta newVNode")
  case (Some ds)
  with r have "delta_loop E el newVNode oldVNode commit effects driver ds (Some effects, w) = Some s"
    by (simp add: reconcile_def)
  then show ?thesis by (rule delta_loop_queue_only [OF d c])
next
  case None
  note no_delta = None
  let ?ocs = "old_children oldVNode"
  let ?ncs = "case children newVNode of None \<Rightarrow> [] | Some c \<Rightarrow> elements c"
  have o: "elements (old_children_of oldVNode) = ?ocs"
    by (simp add: old_children_def)
  consider (no) "falsy_opt (children newVNode) \<or> flag newVNode = Some ELEMENT_NO_CHILDREN"
    | (append) "\<not> falsy_opt (children newVNode)" "flag newVNode \<noteq> Some ELEMENT_NO_CHILDREN"
        "?ocs = []"
    | (keyed) "\<not> falsy_opt (children newVNode)" "flag newVNode \<noteq> Some ELEMENT_NO_CHILDREN"
        "?ocs \<noteq> []" "flag newVNode = Some ELEMENT_KEYED_CHILDREN"
    | (textual) "\<not> falsy_opt (children newVNode)" "flag newVNode \<noteq> Some ELEMENT_NO_CHILDREN"
        "?ocs \<noteq> []" "flag newVNode = Some ELEMENT_TEXT_CHILDREN"
    | (generic) "\<not> falsy_opt (children newVNode)" "?ocs \<noteq> []"
        "flag newVNode \<noteq> Some ELEMENT_NO_CHILDREN"
        "flag newVNode \<noteq> Some ELEMENT_KEYED_CHILDREN" "flag newVNode \<noteq> Some ELEMENT_TEXT_CHILDREN"
    by blast
  then show ?thesis
  proof cases
    case no
    with no_delta r show ?thesis
      by (auto simp: reconcile_def no_children_path_def effect_queued split: if_splits)
  next
    case append
    with no_delta r show ?thesis
      by (auto simp: reconcile_def o append_loop_closed)
  next
    case keyed
    obtain es removed where
      "keyed_path el effects ?ocs ?ncs w =
         Some (queued effects es
            (with_pool el (store_removed el w ?ocs removed (pool_or_empty w el)) w))"
      using keyed_path_closed [of el effects ?ocs ?ncs w] by blast
    with no_delta keyed r show ?thesis
      by (auto simp: reconcile_def o old_children_truthy)
  next
    case textual
    with no_delta r show ?thesis
      by (auto simp: reconcile_def o old_children_truthy text_path_def effect_queued Let_def)
  next
    case generic
    from generic(1) have ns: "children newVNode \<noteq> Some (ChildString [])"
      by auto
    from generic(1) obtain ncs where ncs: "new_children newVNode = Some ncs"
      by (cases "children newVNode") (simp_all add: new_children_def)
    from r reconcile_generic [OF no_delta ncs ns generic(3-5) refl generic(2), of E el commit effects driver w]
    obtain s1 where
      s1: "in_order (reconcile_child E el newVNode oldVNode commit driver ncs ?ocs)
             (rev [0..<min (length ?ocs) (length ncs)]) (Some effects, w) = Some s1"
      and s: "s = (fst s1,
          if length ?ocs < length ncs
          then fold (append_created E el effects) (drop (length ?ocs) ncs) (snd s1)
          else queued effects
                 (map (remove_item_effect el) (rev [int (length ncs)..int (length ?ocs) - 1])) (snd s1))"
      by (auto simp: bind_eq_Some_conv)
    from s1 have q1: "queue_only el effects (Some effects, w) s1"
      by (rule in_order_rel [rotated 3])
         (auto intro: queue_only_trans reconcile_child_queue_only [OF d c])
    obtain ev1 w1 where p: "s1 = (ev1, w1)" by (cases s1)
    have "queue_only el effects s1 s"
      unfolding s p using fold_append_created_queue_only [OF f, of ev1 w1] by simp
    with q1 show ?thesis by (blast intro: queue_only_trans)
  qed
qed

section \<open>What a call leaves unchanged\<close>

text \<open>With a driver that returns another effect sequence, the record that the generic
  path returns holds that sequence, not the one passed in.\<close>

theorem returned_effects_replaced_counterexample:
  "data_effects (fst (the (useChildren [] replacing_env 0
       (parent_of [VText ''a''] None) (Some (parent_of [VText ''b''] None))
       () 0 (Some ()) world4))) = Some 7"
proof -
  have "reconcile replacing_env 0 (parent_of [VText ''a''] None)
       (Some (parent_of [VText ''b''] None)) () 0 (Some ()) world4 = Some (Some 7, world4)"
    by (subst reconcile_generic [where ncs = "[VText ''a'']" and ocs = "[VText ''b'']"])
       (simp_all add: parent_of_def reconcile_child_def replacing_env_def diff_def)
  then show ?thesis by (simp add: useChildren_no_drivers getData_def)
qed

text \<open>Claim C9, amended. With an empty drivers list, the record that useChildren
  returns has its fields el, newVNode, oldVNode, commit and driver equal to the arguments.
  Its effects field is the current value of the variable \<open>effects\<close>, which every
  recursive call replaces by the sequence it returns: when driver, commit and node
  factory keep to the queue discipline (a call returns the effect sequence it was given,
  leaves the child list of the parent alone and only appends to the effect sequence), the
  field is the sequence passed in, extended only by appended effects, and the child list
  of the parent is the same when the call returns.\<close>

theorem useChildren_frame:
  assumes "useChildren [] E el newVNode oldVNode commit effects driver w = Some (d, w')"
  shows "data_el d = Some el \<and> data_newVNode d = newVNode \<and> data_oldVNode d = oldVNode
     \<and> data_commit d = commit \<and> data_driver d = driver
     \<and> (driver_respects (queue_only el effects) E commit \<and>
        commit_respects (queue_only el effects) E commit \<and>
        factory_respects (queue_only el effects) E \<longrightarrow>
        data_effects d = Some effects \<and> childNodes w' el = childNodes w el \<and>
        (\<exists>es. arrays w' effects = arrays w effects @ es))"
proof -
  from assms obtain s where
    r: "reconcile E el newVNode oldVNode commit effects driver w = Some s"
    and d: "d = getData newVNode oldVNode commit driver (Some el) (fst s)" and w': "w' = snd s"
    by (auto simp: useChildren_no_drivers bind_eq_Some_conv)
  have "data_effects d = Some effects \<and> childNodes w' el = childNodes w el \<and>
        (\<exists>es. arrays w' effects = arrays w effects @ es)"
    if "driver_respects (queue_only el effects) E commit \<and>
        commit_respects (queue_only el effects) E commit \<and>
        factory_respects (queue_only el effects) E"
  proof -
    from that have "queue_only el effects (Some effects, w) s"
      using reconcile_queue_only [OF _ _ _ r] by blast
    then show ?thesis by (simp add: d w' queue_only_def getData_def)
  qed
  then show ?thesis by (simp add: d getData_def)
qed

lemma recording_env_queue_only:
  "driver_respects (queue_only el effects0) recording_env c"
  "commit_respects (queue_only el effects0) recording_env c"
  "factory_respects (queue_only el effects0) recording_env"
  by (auto simp: driver_respects_def commit_respects_def factory_respects_def queue_only_def
        recording_env_def queued_def split: option.splits)


lemma recorded_unkeyed:
  "useChildren [] recording_env 0
       (parent_of [VText ''p'', VText ''q''] None)
       (Some (parent_of [VText ''a'', VText ''b'', VText ''c'', VText ''d''] None))
       () 0 (Some ()) world4 =
   Some (\<lparr>data_el = Some 0, data_newVNode = parent_of [VText ''p'', VText ''q''] None,
           data_oldVNode = Some (parent_of [VText ''a'', VText ''b'', VText ''c'', VText ''d''] None),
           data_effects = Some 0, data_commit = (), data_driver = Some ()\<rparr>,
         queued 0
           [\<lparr>kind = Effect_UPDATE, host = 2, flush = SetTextContent (Some ''q'')\<rparr>,
            \<lparr>kind = Effect_UPDATE, host = 1, flush = SetTextContent (Some ''p'')\<rparr>,
            \<lparr>kind = Effect_REMOVE, host = 0, flush = RemoveItem 3\<rparr>,
            \<lparr>kind = Effect_REMOVE, host = 0, flush = RemoveItem 2\<rparr>] world4)"
proof -
  have u: "[0..<2] = [0, 1]" by (simp add: upt_rec)
  have r1: "rev [2::int..3] = [3, 2]" by (simp add: upto_rec1)
  have "reconcile recording_env 0 (parent_of [VText ''p'', VText ''q''] None)
       (Some (parent_of [VText ''a'', VText ''b'', VText ''c'', VText ''d''] None))
       () 0 (Some ()) world4 = Some (Some 0, queued 0
           [\<lparr>kind = Effect_UPDATE, host = 2, flush = SetTextContent (Some ''q'')\<rparr>,
            \<lparr>kind = Effect_UPDATE, host = 1, flush = SetTextContent (Some ''p'')\<rparr>,
            \<lparr>kind = Effect_REMOVE, host = 0, flush = RemoveItem 3\<rparr>,
            \<lparr>kind = Effect_REMOVE, host = 0, flush = RemoveItem 2\<rparr>] world4)"
    by (subst reconcile_generic [where ncs = "[VText ''p'', VText ''q'']"
            and ocs = "[VText ''a'', VText ''b'', VText ''c'', VText ''d'']"])
       (simp_all add: parent_of_def old_children_def u r1 reconcile_child_def
          recording_env_def diff_def item_def at_def world4_def remove_item_effect_def)
  then show ?thesis by (simp add: useChildren_no_drivers getData_def)
qed

theorem useChildren_frame_witness:
  "useChildren [] recording_env 0
       (parent_of [VText ''p'', VText ''q''] None)
       (Some (parent_of [VText ''a'', VText ''b'', VText ''c'', VText ''d''] None))
       () 0 (Some ()) world4 =
   Some (\<lparr>data_el = Some 0, data_newVNode = parent_of [VText ''p'', VText ''q''] None,
           data_oldVNode = Some (parent_of [VText ''a'', VText ''b'', VText ''c'', VText ''d''] None),
           data_effects = Some 0, data_commit = (), data_driver = Some ()\<rparr>,
         queued 0
           [\<lparr>kind = Effect_UPDATE, host = 2, flush = SetTextContent (Some ''q'')\<rparr>,
            \<lparr>kind = Effect_UPDATE, host = 1, flush = SetTextContent (Some ''p'')\<rparr>,
            \<lparr>kind = Effect_REMOVE, host = 0, flush = RemoveItem 3\<rparr>,
            \<lparr>kind = Effect_REMOVE, host = 0, flush = RemoveItem 2\<rparr>] world4)
   \<and> driver_respects (queue_only 0 0) recording_env ()
   \<and> commit_respects (queue_only 0 0) recording_env ()
   \<and> factory_respects (queue_only 0 0) recording_env"
  using useChildren_frame [OF recorded_unkeyed] recorded_unkeyed
    recording_env_queue_only(1,2) [of 0 0 "()"] recording_env_queue_only(3) [of 0 0]
  by simp

end
